theory Spec2Isabelle
  imports Complex_Main "HOL-Library.Product_Lexorder"
begin


section \<open>Data model (constants.py, grid.py)\<close>

text \<open>
  The cell state codes of constants.py (\<open>EMPTY = 0\<close>, \<open>OBSTACLE = 1\<close>, \<open>START = 2\<close>,
  \<open>GOAL = 3\<close>). The program only ever stores and compares these four codes.
\<close>

datatype cell_state = EMPTY | OBSTACLE | START | GOAL

text \<open>The Python exceptions the modelled code can raise.\<close>

datatype error = IndexError | KeyError | ValueError

type_synonym coord = "int \<times> int"

subsection \<open>Python list indexing\<close>

text \<open>
  \<open>xs[i]\<close> and \<open>xs[i] = v\<close> on a Python list: a negative index counts from the end, and
  an index outside \<open>-len(xs) .. len(xs) - 1\<close> raises IndexError.
\<close>

definition py_index :: "'a list \<Rightarrow> int \<Rightarrow> error + nat" where
  "py_index xs i =
     (let n = int (length xs); j = (if i < 0 then n + i else i)
      in if 0 \<le> j \<and> j < n then Inr (nat j) else Inl IndexError)"

definition py_get :: "'a list \<Rightarrow> int \<Rightarrow> error + 'a" where
  "py_get xs i = (case py_index xs i of Inl e \<Rightarrow> Inl e | Inr j \<Rightarrow> Inr (xs ! j))"

definition py_set :: "'a list \<Rightarrow> int \<Rightarrow> 'a \<Rightarrow> error + 'a list" where
  "py_set xs i v = (case py_index xs i of Inl e \<Rightarrow> Inl e | Inr j \<Rightarrow> Inr (xs[j := v]))"

text \<open>\<open>cells[r][c]\<close> and \<open>cells[r][c] = v\<close> on the 2D list (the rows are separate lists).\<close>

definition cells_get :: "'a list list \<Rightarrow> int \<Rightarrow> int \<Rightarrow> error + 'a" where
  "cells_get cs r c = (case py_get cs r of Inl e \<Rightarrow> Inl e | Inr row \<Rightarrow> py_get row c)"

definition cells_set :: "'a list list \<Rightarrow> int \<Rightarrow> int \<Rightarrow> 'a \<Rightarrow> error + 'a list list" where
  "cells_set cs r c v =
     (case py_index cs r of Inl e \<Rightarrow> Inl e
      | Inr j \<Rightarrow> (case py_set (cs ! j) c v of Inl e \<Rightarrow> Inl e
                  | Inr row' \<Rightarrow> Inr (cs[j := row'])))"

subsection \<open>GridManager\<close>

record grid_manager =
  grid_rows :: int
  grid_cols :: int
  grid_start :: coord
  grid_goal :: coord
  grid_cells :: "cell_state list list"

text \<open>
  A method of GridManager mutates the object and returns a value or raises. It is modelled
  as a function to the pair of the outcome (\<open>Inl\<close> the exception) and the object
  afterwards, which on an exception is the object as mutated up to the raising statement.
\<close>

type_synonym 'a outcome = "(error + 'a) \<times> grid_manager"

text \<open>\<open>self.cells[r][c] = v\<close>.\<close>

definition write_cell :: "grid_manager \<Rightarrow> int \<Rightarrow> int \<Rightarrow> cell_state \<Rightarrow> unit outcome" where
  "write_cell g r c v =
     (case cells_set (grid_cells g) r c v of
        Inl e \<Rightarrow> (Inl e, g)
      | Inr cs \<Rightarrow> (Inr (), g\<lparr>grid_cells := cs\<rparr>))"

text \<open>\<open>range(n)\<close>: empty when \<open>n \<le> 0\<close>.\<close>

definition py_range :: "int \<Rightarrow> int list" where
  "py_range n = [0..n - 1]"

text \<open>\<open>_make_empty_grid\<close>: \<open>[[EMPTY for _ in range(cols)] for _ in range(rows)]\<close>.\<close>

definition make_empty_grid :: "int \<Rightarrow> int \<Rightarrow> cell_state list list" where
  "make_empty_grid rows cols = map (\<lambda>_. map (\<lambda>_. EMPTY) (py_range cols)) (py_range rows)"

text \<open>
  \<open>GridManager.__init__(rows, cols)\<close>. An exception in the constructor leaves no object, so
  the result is the exception or the new object.
\<close>

definition create :: "int \<Rightarrow> int \<Rightarrow> error + grid_manager" where
  "create rows cols =
     (let g0 = \<lparr>grid_rows = rows, grid_cols = cols, grid_start = (0, 0),
                grid_goal = (rows - 1, cols - 1), grid_cells = make_empty_grid rows cols\<rparr>
      in case write_cell g0 (fst (grid_start g0)) (snd (grid_start g0)) START of
           (Inl e, _) \<Rightarrow> Inl e
         | (Inr _, g1) \<Rightarrow>
             (case write_cell g1 (fst (grid_goal g1)) (snd (grid_goal g1)) GOAL of
                (Inl e, _) \<Rightarrow> Inl e
              | (Inr _, g2) \<Rightarrow> Inr g2))"

text \<open>
  A \<open>for x in xs: body\<close> loop over the object: the body runs for each element in turn, and
  an exception in the body ends the loop with the object as it is then.
\<close>

fun for_each :: "('x \<Rightarrow> 's \<Rightarrow> (error + unit) \<times> 's) \<Rightarrow> 'x list \<Rightarrow> 's \<Rightarrow> (error + unit) \<times> 's" where
  "for_each body [] s = (Inr (), s)"
| "for_each body (x # xs) s =
     (case body x s of
        (Inl e, s') \<Rightarrow> (Inl e, s')
      | (Inr _, s') \<Rightarrow> for_each body xs s')"

text \<open>
  The cells in the order of \<open>for r in range(self.rows): for c in range(self.cols)\<close>.
\<close>

definition all_cells :: "grid_manager \<Rightarrow> coord list" where
  "all_cells g = List.product (py_range (grid_rows g)) (py_range (grid_cols g))"

text \<open>\<open>clear_obstacles\<close>: every OBSTACLE cell becomes EMPTY.\<close>

definition clear_body :: "coord \<Rightarrow> grid_manager \<Rightarrow> unit outcome" where
  "clear_body rc g =
     (case cells_get (grid_cells g) (fst rc) (snd rc) of
        Inl e \<Rightarrow> (Inl e, g)
      | Inr v \<Rightarrow> if v = OBSTACLE then write_cell g (fst rc) (snd rc) EMPTY else (Inr (), g))"

definition clear_obstacles :: "grid_manager \<Rightarrow> unit outcome" where
  "clear_obstacles g = for_each clear_body (all_cells g) g"

text \<open>\<open>_is_safe_to_edit\<close>, with its four tests in the order of the source.\<close>

definition is_safe_to_edit :: "grid_manager \<Rightarrow> int \<Rightarrow> int \<Rightarrow> bool" where
  "is_safe_to_edit g row col =
     (if (row, col) = grid_start g then False
      else if (row, col) = grid_goal g then False
      else if \<not> (0 \<le> row \<and> row < grid_rows g) then False
      else if \<not> (0 \<le> col \<and> col < grid_cols g) then False
      else True)"

text \<open>
  \<open>toggle_obstacle\<close>: \<open>None\<close> for a cell that may not be edited, else the new state of the
  cell.
\<close>

definition toggle_obstacle :: "grid_manager \<Rightarrow> int \<Rightarrow> int \<Rightarrow> cell_state option outcome" where
  "toggle_obstacle g row col =
     (if \<not> is_safe_to_edit g row col then (Inr None, g)
      else case cells_get (grid_cells g) row col of
             Inl e \<Rightarrow> (Inl e, g)
           | Inr v \<Rightarrow>
               if v = OBSTACLE then
                 (case write_cell g row col EMPTY of
                    (Inl e, g') \<Rightarrow> (Inl e, g')
                  | (Inr _, g') \<Rightarrow> (Inr (Some EMPTY), g'))
               else
                 (case write_cell g row col OBSTACLE of
                    (Inl e, g') \<Rightarrow> (Inl e, g')
                  | (Inr _, g') \<Rightarrow> (Inr (Some OBSTACLE), g')))"

text \<open>\<open>place_obstacle\<close>: \<open>True\<close> when an obstacle was placed.\<close>

definition place_obstacle :: "grid_manager \<Rightarrow> int \<Rightarrow> int \<Rightarrow> bool outcome" where
  "place_obstacle g row col =
     (if \<not> is_safe_to_edit g row col then (Inr False, g)
      else case cells_get (grid_cells g) row col of
             Inl e \<Rightarrow> (Inl e, g)
           | Inr v \<Rightarrow>
               if v = OBSTACLE then (Inr False, g)
               else (case write_cell g row col OBSTACLE of
                       (Inl e, g') \<Rightarrow> (Inl e, g')
                     | (Inr _, g') \<Rightarrow> (Inr True, g')))"

text \<open>
  \<open>generate_random(density_percent)\<close>. The values \<open>random.random()\<close> returns during the call
  are the parameter \<open>draws\<close>: \<open>draws k\<close> is the value of the \<open>k\<close>-th call, counted from 0, and
  the loop state carries the number of calls made so far. Floats are taken as the rationals
  they denote; \<open>density_percent / 100.0\<close> is the exact quotient, which is the float result
  for the percentages 0 and 100.
\<close>

definition generate_body :: "rat \<Rightarrow> (nat \<Rightarrow> rat) \<Rightarrow> coord \<Rightarrow> grid_manager \<times> nat
    \<Rightarrow> (error + unit) \<times> (grid_manager \<times> nat)" where
  "generate_body density draws rc s =
     (let g = fst s; k = snd s in
      if rc = grid_start g \<or> rc = grid_goal g then (Inr (), (g, k))
      else if draws k < density then
        (case write_cell g (fst rc) (snd rc) OBSTACLE of (res, g') \<Rightarrow> (res, (g', Suc k)))
      else
        (case write_cell g (fst rc) (snd rc) EMPTY of (res, g') \<Rightarrow> (res, (g', Suc k))))"

definition generate_random :: "grid_manager \<Rightarrow> int \<Rightarrow> (nat \<Rightarrow> rat) \<Rightarrow> unit outcome" where
  "generate_random g density_percent draws =
     (let density = of_int density_percent / 100
      in case for_each (generate_body density draws) (all_cells g) (g, 0) of
           (res, (g', _)) \<Rightarrow> (res, g'))"

text \<open>
  \<open>random.randint(a, b)\<close>: ValueError on an empty range, else the next integer \<open>v\<close> of the
  generator, which lies in \<open>a .. b\<close>.
\<close>

definition randint :: "int \<Rightarrow> int \<Rightarrow> int \<Rightarrow> error + int" where
  "randint a b v = (if b < a then Inl ValueError else Inr v)"

text \<open>
  \<open>try_spawn_dynamic_obstacle(agent_pos, current_path, spawn_prob)\<close>. \<open>u\<close> is the value of
  the call of \<open>random.random()\<close>, and \<open>picks i\<close> holds the two integers that the two
  \<open>randint\<close> calls of attempt \<open>i\<close> return. The loop \<open>for _ in range(20)\<close> is the recursion
  over the attempt numbers.
\<close>

fun spawn_loop :: "grid_manager \<Rightarrow> coord \<Rightarrow> coord list \<Rightarrow> (nat \<Rightarrow> coord) \<Rightarrow> nat list
    \<Rightarrow> (coord option \<times> bool) outcome" where
  "spawn_loop g agent_pos current_path picks [] = (Inr (None, False), g)"
| "spawn_loop g agent_pos current_path picks (i # rest) =
     (case randint 0 (grid_rows g - 1) (fst (picks i)) of
        Inl e \<Rightarrow> (Inl e, g)
      | Inr r \<Rightarrow>
     (case randint 0 (grid_cols g - 1) (snd (picks i)) of
        Inl e \<Rightarrow> (Inl e, g)
      | Inr c \<Rightarrow>
          if (r, c) = grid_start g then spawn_loop g agent_pos current_path picks rest
          else if (r, c) = grid_goal g then spawn_loop g agent_pos current_path picks rest
          else if (r, c) = agent_pos then spawn_loop g agent_pos current_path picks rest
          else (case cells_get (grid_cells g) r c of
                  Inl e \<Rightarrow> (Inl e, g)
                | Inr v \<Rightarrow>
                    if v = OBSTACLE then spawn_loop g agent_pos current_path picks rest
                    else (case write_cell g r c OBSTACLE of
                            (Inl e, g') \<Rightarrow> (Inl e, g')
                          | (Inr _, g') \<Rightarrow>
                              (let blocks_path = ((r, c) \<in> set current_path)
                               in (Inr (Some (r, c), blocks_path), g'))))))"

definition try_spawn_dynamic_obstacle :: "grid_manager \<Rightarrow> coord \<Rightarrow> coord list \<Rightarrow> rat
    \<Rightarrow> rat \<Rightarrow> (nat \<Rightarrow> coord) \<Rightarrow> (coord option \<times> bool) outcome" where
  "try_spawn_dynamic_obstacle g agent_pos current_path spawn_prob u picks =
     (if u > spawn_prob then (Inr (None, False), g)
      else spawn_loop g agent_pos current_path picks [0..<20])"

text \<open>
  \<open>move_start\<close> and \<open>move_goal\<close>: \<open>None\<close> when the target is the other anchor, else the old
  position. The statements run in the order of the source, so an IndexError of the last
  write leaves the old cell cleared and the stored position changed.
\<close>

definition move_start :: "grid_manager \<Rightarrow> int \<Rightarrow> int \<Rightarrow> coord option outcome" where
  "move_start g new_row new_col =
     (if (new_row, new_col) = grid_goal g then (Inr None, g)
      else
        let old_start = grid_start g in
        case write_cell g (fst old_start) (snd old_start) EMPTY of
          (Inl e, g1) \<Rightarrow> (Inl e, g1)
        | (Inr _, g1) \<Rightarrow>
            (case write_cell (g1\<lparr>grid_start := (new_row, new_col)\<rparr>) new_row new_col START of
               (Inl e, g2) \<Rightarrow> (Inl e, g2)
             | (Inr _, g2) \<Rightarrow> (Inr (Some old_start), g2)))"

definition move_goal :: "grid_manager \<Rightarrow> int \<Rightarrow> int \<Rightarrow> coord option outcome" where
  "move_goal g new_row new_col =
     (if (new_row, new_col) = grid_start g then (Inr None, g)
      else
        let old_goal = grid_goal g in
        case write_cell g (fst old_goal) (snd old_goal) EMPTY of
          (Inl e, g1) \<Rightarrow> (Inl e, g1)
        | (Inr _, g1) \<Rightarrow>
            (case write_cell (g1\<lparr>grid_goal := (new_row, new_col)\<rparr>) new_row new_col GOAL of
               (Inl e, g2) \<Rightarrow> (Inl e, g2)
             | (Inr _, g2) \<Rightarrow> (Inr (Some old_goal), g2)))"

text \<open>\<open>get_cell\<close>: \<open>self.cells[row][col]\<close>.\<close>

definition get_cell :: "grid_manager \<Rightarrow> int \<Rightarrow> int \<Rightarrow> error + cell_state" where
  "get_cell g row col = cells_get (grid_cells g) row col"


section \<open>Heuristics (heuristics.py)\<close>

text \<open>\<open>manhattan_distance(a, b) = abs(a[0] - b[0]) + abs(a[1] - b[1])\<close>, on Python integers.\<close>

definition manhattan_distance :: "coord \<Rightarrow> coord \<Rightarrow> int" where
  "manhattan_distance a b = \<bar>fst a - fst b\<bar> + \<bar>snd a - snd b\<bar>"

section \<open>Search algorithms (algorithms.py)\<close>

subsection \<open>Neighbours\<close>

text \<open>
  \<open>get_neighbors(grid, row, col, rows, cols)\<close>: the loop over the four directions up, down,
  left, right, appending each neighbour that passes the bounds test and whose cell is not an
  obstacle. \<open>grid[nr][nc]\<close> raises IndexError when the lists are shorter than \<open>rows\<close> and
  \<open>cols\<close> say.
\<close>

definition directions :: "(int \<times> int) list" where
  "directions = [(- 1, 0), (1, 0), (0, - 1), (0, 1)]"

fun neighbors_loop :: "cell_state list list \<Rightarrow> int \<Rightarrow> int \<Rightarrow> int \<Rightarrow> int \<Rightarrow> (int \<times> int) list
    \<Rightarrow> coord list \<Rightarrow> error + coord list" where
  "neighbors_loop grid row col rows cols [] neighbors = Inr neighbors"
| "neighbors_loop grid row col rows cols ((dr, dc) # rest) neighbors =
     (let nr = row + dr; nc = col + dc in
      if 0 \<le> nr \<and> nr < rows \<and> 0 \<le> nc \<and> nc < cols then
        (case cells_get grid nr nc of
           Inl e \<Rightarrow> Inl e
         | Inr v \<Rightarrow>
             if v \<noteq> OBSTACLE
             then neighbors_loop grid row col rows cols rest (neighbors @ [(nr, nc)])
             else neighbors_loop grid row col rows cols rest neighbors)
      else neighbors_loop grid row col rows cols rest neighbors)"

definition get_neighbors :: "cell_state list list \<Rightarrow> int \<Rightarrow> int \<Rightarrow> int \<Rightarrow> int \<Rightarrow> error + coord list" where
  "get_neighbors grid row col rows cols = neighbors_loop grid row col rows cols directions []"

subsection \<open>Path reconstruction\<close>

text \<open>
  \<open>came_from\<close> is a dict from a node to its parent or \<open>None\<close>. \<open>reconstruct_path\<close> follows it
  from the goal while \<open>current is not None\<close>, appending each node, and reverses the list.
  \<open>came_from[current]\<close> raises KeyError for a missing key, and on a cyclic dict the loop does
  not end: the value \<open>None\<close> of the outer option stands for not returning.
\<close>

type_synonym came_from_map = "coord \<rightharpoonup> coord option"

partial_function (option) reconstruct_loop :: "came_from_map \<Rightarrow> coord option \<Rightarrow> coord list
    \<Rightarrow> (error + coord list) option" where
  "reconstruct_loop came_from current path =
     (case current of
        None \<Rightarrow> Some (Inr (rev path))
      | Some c \<Rightarrow>
          (case came_from c of
             None \<Rightarrow> Some (Inl KeyError)
           | Some parent \<Rightarrow> reconstruct_loop came_from parent (path @ [c])))"

declare reconstruct_loop.simps [code]

definition reconstruct_path :: "came_from_map \<Rightarrow> coord \<Rightarrow> (error + coord list) option" where
  "reconstruct_path came_from goal = reconstruct_loop came_from (Some goal) []"

subsection \<open>The priority queue\<close>

text \<open>
  \<open>heapq\<close> keeps the entries in a list; \<open>heappush\<close> adds an entry and \<open>heappop\<close> removes and
  returns the least one in the order of Python tuples, which is the lexicographic order.
  The searches observe the queue only through \<open>heappop\<close>, the emptiness test and the set of
  its nodes, so the layout of the entries inside the list is not modelled: entries that
  compare equal are equal.
\<close>

definition heappush :: "'a list \<Rightarrow> 'a \<Rightarrow> 'a list" where
  "heappush heap item = heap @ [item]"

definition heappop :: "'a::linorder list \<Rightarrow> 'a \<times> 'a list" where
  "heappop heap = (let item = Min (set heap) in (item, remove1 item heap))"

lemma heappop_props:
  assumes "heap \<noteq> []" and "heappop heap = (item, rest)"
  shows "item \<in> set heap" and "\<forall>x \<in> set heap. item \<le> x"
    and "length rest < length heap" and "set heap = insert item (set rest)"
    and "rest = remove1 item heap"
proof -
  from assms have m: "item = Min (set heap)" and r: "rest = remove1 item heap"
    by (auto simp: heappop_def Let_def)
  from r show "rest = remove1 item heap" .
  from assms(1) m show i: "item \<in> set heap" by simp
  from m show "\<forall>x \<in> set heap. item \<le> x" by simp
  from i have "length heap > 0" by (cases heap) simp_all
  with i r show "length rest < length heap"
    by (simp add: length_remove1)
  show "set heap = insert item (set rest)"
  proof (intro set_eqI iffI)
    fix x assume "x \<in> set heap"
    then show "x \<in> insert item (set rest)"
      using r by (cases "x = item") (simp_all add: in_set_remove1)
  next
    fix x assume "x \<in> insert item (set rest)"
    then show "x \<in> set heap"
      using i r set_remove1_subset[of item heap] by auto
  qed
qed

subsection \<open>Search results\<close>

text \<open>
  A search returns \<open>(path, visited_order, frontier_snapshots)\<close> with \<open>path\<close> possibly \<open>None\<close>,
  or raises; and it may fail to return where \<open>reconstruct_path\<close> does.
\<close>

type_synonym search_result = "coord list option \<times> coord list \<times> coord set list"

definition finish :: "came_from_map \<Rightarrow> coord \<Rightarrow> coord list \<Rightarrow> coord set list
    \<Rightarrow> (error + search_result) option" where
  "finish came_from goal visited_order frontier_snapshots =
     (case reconstruct_path came_from goal of
        None \<Rightarrow> None
      | Some (Inl e) \<Rightarrow> Some (Inl e)
      | Some (Inr path) \<Rightarrow> Some (Inr (Some path, visited_order, frontier_snapshots)))"

subsection \<open>The neighbour loop of Greedy best-first search\<close>

text \<open>The \<open>for neighbor in get_neighbors(...)\<close> loop of \<open>greedy_bfs\<close>.\<close>

fun greedy_expand :: "(coord \<Rightarrow> coord \<Rightarrow> 'p) \<Rightarrow> coord \<Rightarrow> coord \<Rightarrow> coord list
    \<Rightarrow> ('p \<times> coord) list \<times> came_from_map \<Rightarrow> ('p \<times> coord) list \<times> came_from_map" where
  "greedy_expand heuristic_fn goal current [] st = st"
| "greedy_expand heuristic_fn goal current (neighbor # rest) (open_list, came_from) =
     (if came_from neighbor = None then
        (let came_from' = came_from(neighbor \<mapsto> Some current);
             priority = heuristic_fn neighbor goal
         in greedy_expand heuristic_fn goal current rest
              (heappush open_list (priority, neighbor), came_from'))
      else greedy_expand heuristic_fn goal current rest (open_list, came_from))"

lemma greedy_expand_measure:
  assumes "finite U" and "set ns \<subseteq> U"
    and "greedy_expand h goal current ns (open_list, came_from) = (open_list', came_from')"
  shows "card (U - dom came_from') + length open_list' = card (U - dom came_from) + length open_list"
  using assms(2,3)
proof (induction ns arbitrary: open_list came_from)
  case Nil
  then show ?case by simp
next
  case (Cons n ns)
  show ?case
  proof (cases "came_from n = None")
    case False
    with Cons show ?thesis by simp
  next
    case True
    let ?cf = "came_from(n \<mapsto> Some current)"
    from Cons.prems True have
      "greedy_expand h goal current ns (heappush open_list (h n goal, n), ?cf) = (open_list', came_from')"
      by simp
    moreover from Cons.prems(1) have "set ns \<subseteq> U" by simp
    ultimately have e: "card (U - dom came_from') + length open_list'
        = card (U - dom ?cf) + length (heappush open_list (h n goal, n))"
      by (rule Cons.IH[rotated])
    from Cons.prems(1) True have n: "n \<in> U - dom came_from" by (auto simp: domIff)
    have "U - dom ?cf = (U - dom came_from) - {n}" by auto
    then have "card (U - dom ?cf) = card (U - dom came_from) - 1"
      using n by (simp only: card_Diff_singleton)
    moreover from n assms(1) have "card (U - dom came_from) > 0"
      by (auto simp: card_gt_0_iff)
    ultimately have "card (U - dom ?cf) + 1 = card (U - dom came_from)" by simp
    with e show ?thesis by (simp add: heappush_def)
  qed
qed

definition grid_cells_set :: "int \<Rightarrow> int \<Rightarrow> coord set" where
  "grid_cells_set rows cols = {0..<rows} \<times> {0..<cols}"

lemma neighbors_loop_subset:
  "neighbors_loop grid row col rows cols ds acc = Inr ns
   \<Longrightarrow> set ns \<subseteq> set acc \<union> grid_cells_set rows cols"
proof (induction ds arbitrary: acc)
  case Nil
  then show ?case by simp
next
  case (Cons d ds)
  obtain dr dc where d: "d = (dr, dc)" by (cases d)
  show ?case
  proof (cases "0 \<le> row + dr \<and> row + dr < rows \<and> 0 \<le> col + dc \<and> col + dc < cols")
    case False
    with Cons d show ?thesis by (simp add: Let_def)
  next
    case True
    then have m: "(row + dr, col + dc) \<in> grid_cells_set rows cols"
      by (simp add: grid_cells_set_def)
    from Cons.prems True d obtain v where v: "cells_get grid (row + dr) (col + dc) = Inr v"
      by (cases "cells_get grid (row + dr) (col + dc)") (simp_all add: Let_def)
    show ?thesis
    proof (cases "v = OBSTACLE")
      case True
      with Cons \<open>0 \<le> row + dr \<and> row + dr < rows \<and> 0 \<le> col + dc \<and> col + dc < cols\<close> d v
      show ?thesis by (simp add: Let_def)
    next
      case False
      with Cons.prems True d v have
        "neighbors_loop grid row col rows cols ds (acc @ [(row + dr, col + dc)]) = Inr ns"
        by (simp add: Let_def)
      from Cons.IH[OF this] m show ?thesis by auto
    qed
  qed
qed

lemma get_neighbors_subset:
  "get_neighbors grid row col rows cols = Inr ns \<Longrightarrow> set ns \<subseteq> grid_cells_set rows cols"
  using neighbors_loop_subset[of grid row col rows cols directions "[]" ns]
  by (simp add: get_neighbors_def)

lemma finite_grid_cells_set: "finite (grid_cells_set rows cols)"
  by (simp add: grid_cells_set_def)

subsection \<open>The neighbour loop of A*\<close>

text \<open>
  Heap entries of \<open>astar\<close> are \<open>(f_score, g_score, node)\<close>. The heuristic value and the
  f-score are taken in an ordered ring \<open>'p\<close> (the integers for \<open>manhattan_distance\<close>), into
  which the integer g-score is embedded for \<open>tentative_g + heuristic_fn(neighbor, goal)\<close>.
\<close>

type_synonym g_score_map = "coord \<rightharpoonup> int"

text \<open>
  The \<open>for neighbor in get_neighbors(...)\<close> loop of \<open>astar\<close>. \<open>g_score[current]\<close> raises
  KeyError for a missing key.
\<close>

fun astar_expand :: "(coord \<Rightarrow> coord \<Rightarrow> 'p::linordered_idom) \<Rightarrow> coord \<Rightarrow> coord \<Rightarrow> coord set
    \<Rightarrow> coord list \<Rightarrow> ('p \<times> int \<times> coord) list \<times> came_from_map \<times> g_score_map
    \<Rightarrow> error + ('p \<times> int \<times> coord) list \<times> came_from_map \<times> g_score_map" where
  "astar_expand heuristic_fn goal current closed_set [] st = Inr st"
| "astar_expand heuristic_fn goal current closed_set (neighbor # rest) (open_list, came_from, g_score) =
     (if neighbor \<in> closed_set
      then astar_expand heuristic_fn goal current closed_set rest (open_list, came_from, g_score)
      else
        case g_score current of
          None \<Rightarrow> Inl KeyError
        | Some g_current \<Rightarrow>
            let tentative_g = g_current + 1 in
            if (case g_score neighbor of None \<Rightarrow> True | Some g_old \<Rightarrow> tentative_g < g_old) then
              (let g_score' = g_score(neighbor \<mapsto> tentative_g);
                   came_from' = came_from(neighbor \<mapsto> Some current);
                   f_score = of_int tentative_g + heuristic_fn neighbor goal
               in astar_expand heuristic_fn goal current closed_set rest
                    (heappush open_list (f_score, tentative_g, neighbor), came_from', g_score'))
            else astar_expand heuristic_fn goal current closed_set rest (open_list, came_from, g_score))"

definition heap_nodes :: "('p \<times> int \<times> coord) list \<Rightarrow> coord set" where
  "heap_nodes open_list = set (map (\<lambda>item. snd (snd item)) open_list)"

lemma astar_expand_nodes:
  "astar_expand h goal current closed_set ns (open_list, came_from, g_score)
     = Inr (open_list', came_from', g_score')
   \<Longrightarrow> heap_nodes open_list' \<subseteq> heap_nodes open_list \<union> set ns"
proof (induction ns arbitrary: open_list came_from g_score)
  case Nil
  then show ?case by simp
next
  case (Cons n ns)
  show ?case
  proof (cases "n \<in> closed_set")
    case True
    with Cons.prems have
      "astar_expand h goal current closed_set ns (open_list, came_from, g_score)
         = Inr (open_list', came_from', g_score')" by simp
    from Cons.IH[OF this] show ?thesis by auto
  next
    case False
    with Cons.prems obtain gc where gc: "g_score current = Some gc"
      by (cases "g_score current") simp_all
    show ?thesis
    proof (cases "case g_score n of None \<Rightarrow> True | Some g_old \<Rightarrow> gc + 1 < g_old")
      case True
      with Cons.prems False gc have
        "astar_expand h goal current closed_set ns
           (heappush open_list (of_int (gc + 1) + h n goal, gc + 1, n),
            came_from(n \<mapsto> Some current), g_score(n \<mapsto> gc + 1))
         = Inr (open_list', came_from', g_score')" by (simp add: Let_def)
      from Cons.IH[OF this] show ?thesis by (auto simp: heap_nodes_def heappush_def)
    next
      case f: False
      with Cons.prems False gc have
        "astar_expand h goal current closed_set ns (open_list, came_from, g_score)
         = Inr (open_list', came_from', g_score')" by (simp add: Let_def)
      from Cons.IH[OF this] show ?thesis by auto
    qed
  qed
qed

subsection \<open>The search loops\<close>

text \<open>
  One pass of a \<open>while\<close> loop either goes on with the new values of the local variables
  (falling through to the loop test, or \<open>continue\<close>) or leaves the function (\<open>return\<close>, or
  an exception).
\<close>

datatype ('s, 'r) loop_step = Continue 's | Return 'r

text \<open>
  The local variables \<open>open_list\<close>, \<open>came_from\<close>, \<open>visited_order\<close> and
  \<open>frontier_snapshots\<close> of both searches; \<open>astar\<close> has \<open>g_score\<close> and \<open>closed_set\<close> as well.
\<close>

record 'e search_state =
  open_list :: "'e list"
  came_from :: came_from_map
  visited_order :: "coord list"
  frontier_snapshots :: "coord set list"

text \<open>
  One pass of the \<open>while open_list\<close> loop of \<open>greedy_bfs\<close>. A snapshot is
  \<open>frozenset(item[1] for item in open_list)\<close>.
\<close>

definition greedy_step :: "cell_state list list \<Rightarrow> coord \<Rightarrow> int \<Rightarrow> int
    \<Rightarrow> (coord \<Rightarrow> coord \<Rightarrow> 'p::linorder) \<Rightarrow> ('p \<times> coord) search_state
    \<Rightarrow> (('p \<times> coord) search_state, (error + search_result) option) loop_step" where
  "greedy_step grid goal rows cols heuristic_fn s =
     (if open_list s = [] then Return (Some (Inr (None, visited_order s, frontier_snapshots s)))
      else
        case heappop (open_list s) of
          ((priority, current), open_list1) \<Rightarrow>
            let visited_order1 = visited_order s @ [current] in
            if current = goal
            then Return (finish (came_from s) goal visited_order1 (frontier_snapshots s))
            else
              (case get_neighbors grid (fst current) (snd current) rows cols of
                 Inl e \<Rightarrow> Return (Some (Inl e))
               | Inr neighbors \<Rightarrow>
                   (case greedy_expand heuristic_fn goal current neighbors (open_list1, came_from s) of
                      (open_list2, came_from2) \<Rightarrow>
                        Continue \<lparr>open_list = open_list2, came_from = came_from2,
                          visited_order = visited_order1,
                          frontier_snapshots =
                            frontier_snapshots s @ [set (map (\<lambda>item. snd item) open_list2)]\<rparr>)))"

definition greedy_measure :: "int \<Rightarrow> int \<Rightarrow> ('p \<times> coord) search_state \<Rightarrow> nat" where
  "greedy_measure rows cols s =
     card (grid_cells_set rows cols - dom (came_from s)) + length (open_list s)"

lemma greedy_step_decreases:
  assumes "greedy_step grid goal rows cols h s = Continue s'"
  shows "greedy_measure rows cols s' < greedy_measure rows cols s"
proof -
  from assms have ne: "open_list s \<noteq> []" by (auto simp: greedy_step_def split: if_splits)
  obtain priority current open_list1 where
    pop: "heappop (open_list s) = ((priority, current), open_list1)"
    by (metis surj_pair)
  from assms ne pop obtain neighbors where
    nb: "get_neighbors grid (fst current) (snd current) rows cols = Inr neighbors"
    by (auto simp: greedy_step_def Let_def split: if_splits sum.splits)
  obtain open_list2 came_from2 where
    ex: "greedy_expand h goal current neighbors (open_list1, came_from s) = (open_list2, came_from2)"
    by (metis surj_pair)
  from assms ne pop nb ex have s': "open_list s' = open_list2" "came_from s' = came_from2"
    by (auto simp: greedy_step_def Let_def split: if_splits)
  from heappop_props(3)[OF ne pop] have l: "length open_list1 < length (open_list s)" .
  from nb have "set neighbors \<subseteq> grid_cells_set rows cols" by (rule get_neighbors_subset)
  from greedy_expand_measure[OF finite_grid_cells_set this ex] l s'
  show ?thesis by (simp add: greedy_measure_def)
qed

text \<open>The \<open>while open_list\<close> loop of \<open>greedy_bfs\<close>.\<close>

function greedy_loop :: "cell_state list list \<Rightarrow> coord \<Rightarrow> int \<Rightarrow> int
    \<Rightarrow> (coord \<Rightarrow> coord \<Rightarrow> 'p::linorder) \<Rightarrow> ('p \<times> coord) search_state
    \<Rightarrow> (error + search_result) option" where
  "greedy_loop grid goal rows cols heuristic_fn s =
     (case greedy_step grid goal rows cols heuristic_fn s of
        Return r \<Rightarrow> r
      | Continue s' \<Rightarrow> greedy_loop grid goal rows cols heuristic_fn s')"
  by pat_completeness auto
termination
  by (relation "measure (\<lambda>(grid, goal, rows, cols, h, s). greedy_measure rows cols s)")
     (auto dest: greedy_step_decreases)

text \<open>\<open>greedy_bfs(grid, start, goal, rows, cols, heuristic_fn)\<close>.\<close>

definition greedy_bfs :: "cell_state list list \<Rightarrow> coord \<Rightarrow> coord \<Rightarrow> int \<Rightarrow> int
    \<Rightarrow> (coord \<Rightarrow> coord \<Rightarrow> 'p::linorder) \<Rightarrow> (error + search_result) option" where
  "greedy_bfs grid start goal rows cols heuristic_fn =
     greedy_loop grid goal rows cols heuristic_fn
       \<lparr>open_list = heappush [] (heuristic_fn start goal, start),
        came_from = [start \<mapsto> None], visited_order = [], frontier_snapshots = []\<rparr>"

record 'e astar_state = "'e search_state" +
  g_score :: g_score_map
  closed_set :: "coord set"

text \<open>
  One pass of the \<open>while open_list\<close> loop of \<open>astar\<close>. A popped node that is in
  \<open>closed_set\<close> is skipped (\<open>continue\<close>). A snapshot is
  \<open>frozenset(item[2] for item in open_list)\<close>.
\<close>

definition astar_step :: "cell_state list list \<Rightarrow> coord \<Rightarrow> int \<Rightarrow> int
    \<Rightarrow> (coord \<Rightarrow> coord \<Rightarrow> 'p::linordered_idom) \<Rightarrow> ('p \<times> int \<times> coord) astar_state
    \<Rightarrow> (('p \<times> int \<times> coord) astar_state, (error + search_result) option) loop_step" where
  "astar_step grid goal rows cols heuristic_fn s =
     (if open_list s = [] then Return (Some (Inr (None, visited_order s, frontier_snapshots s)))
      else
        case heappop (open_list s) of
          ((f, g, current), open_list1) \<Rightarrow>
            if current \<in> closed_set s then Continue (s\<lparr>open_list := open_list1\<rparr>)
            else
              let closed_set1 = insert current (closed_set s);
                  visited_order1 = visited_order s @ [current] in
              if current = goal
              then Return (finish (came_from s) goal visited_order1 (frontier_snapshots s))
              else
                (case get_neighbors grid (fst current) (snd current) rows cols of
                   Inl e \<Rightarrow> Return (Some (Inl e))
                 | Inr neighbors \<Rightarrow>
                     (case astar_expand heuristic_fn goal current closed_set1 neighbors
                             (open_list1, came_from s, g_score s) of
                        Inl e \<Rightarrow> Return (Some (Inl e))
                      | Inr (open_list2, came_from2, g_score2) \<Rightarrow>
                          Continue \<lparr>open_list = open_list2, came_from = came_from2,
                            visited_order = visited_order1,
                            frontier_snapshots =
                              frontier_snapshots s @ [set (map (\<lambda>item. snd (snd item)) open_list2)],
                            g_score = g_score2, closed_set = closed_set1\<rparr>)))"

definition astar_measure :: "int \<Rightarrow> int \<Rightarrow> ('p \<times> int \<times> coord) astar_state \<Rightarrow> nat \<times> nat" where
  "astar_measure rows cols s =
     (card ((grid_cells_set rows cols \<union> heap_nodes (open_list s)) - closed_set s),
      length (open_list s))"

lemma astar_step_decreases:
  assumes "astar_step grid goal rows cols h s = Continue s'"
  shows "(astar_measure rows cols s', astar_measure rows cols s) \<in> less_than <*lex*> less_than"
proof -
  let ?U = "grid_cells_set rows cols"
  from assms have ne: "open_list s \<noteq> []" by (auto simp: astar_step_def split: if_splits)
  obtain f g current open_list1 where
    pop: "heappop (open_list s) = ((f, g, current), open_list1)"
    by (metis surj_pair)
  from heappop_props[OF ne pop] have l: "length open_list1 < length (open_list s)"
    and mem: "(f, g, current) \<in> set (open_list s)"
    and st: "set (open_list s) = insert (f, g, current) (set open_list1)"
    by simp_all
  from mem st have c: "current \<in> heap_nodes (open_list s)"
    and sub1: "heap_nodes open_list1 \<subseteq> heap_nodes (open_list s)"
    by (auto simp: heap_nodes_def intro: rev_image_eqI)
  have fin: "finite ((?U \<union> heap_nodes (open_list s)) - closed_set s)"
    by (simp add: finite_grid_cells_set heap_nodes_def)
  show ?thesis
  proof (cases "current \<in> closed_set s")
    case True
    with assms ne pop have s': "s' = s\<lparr>open_list := open_list1\<rparr>"
      by (simp add: astar_step_def)
    from sub1 have "card ((?U \<union> heap_nodes open_list1) - closed_set s)
        \<le> card ((?U \<union> heap_nodes (open_list s)) - closed_set s)"
      by (intro card_mono fin) auto
    with l s' show ?thesis by (auto simp: astar_measure_def)
  next
    case False
    with assms ne pop obtain neighbors where
      nb: "get_neighbors grid (fst current) (snd current) rows cols = Inr neighbors"
      by (auto simp: astar_step_def Let_def split: if_splits sum.splits)
    with assms ne pop False obtain open_list2 came_from2 g_score2 where
      ex: "astar_expand h goal current (insert current (closed_set s)) neighbors
             (open_list1, came_from s, g_score s) = Inr (open_list2, came_from2, g_score2)"
      by (auto simp: astar_step_def Let_def split: if_splits sum.splits)
    from assms ne pop False nb ex have s': "open_list s' = open_list2"
        "closed_set s' = insert current (closed_set s)"
      by (auto simp: astar_step_def Let_def split: if_splits)
    from nb have n: "set neighbors \<subseteq> ?U" by (rule get_neighbors_subset)
    from astar_expand_nodes[OF ex] n sub1
    have "heap_nodes open_list2 \<subseteq> ?U \<union> heap_nodes (open_list s)" by auto
    with c False have "(?U \<union> heap_nodes open_list2) - insert current (closed_set s)
        \<subset> (?U \<union> heap_nodes (open_list s)) - closed_set s" by auto
    from psubset_card_mono[OF fin this] s' show ?thesis by (simp add: astar_measure_def)
  qed
qed

text \<open>The \<open>while open_list\<close> loop of \<open>astar\<close>.\<close>

function astar_loop :: "cell_state list list \<Rightarrow> coord \<Rightarrow> int \<Rightarrow> int
    \<Rightarrow> (coord \<Rightarrow> coord \<Rightarrow> 'p::linordered_idom) \<Rightarrow> ('p \<times> int \<times> coord) astar_state
    \<Rightarrow> (error + search_result) option" where
  "astar_loop grid goal rows cols heuristic_fn s =
     (case astar_step grid goal rows cols heuristic_fn s of
        Return r \<Rightarrow> r
      | Continue s' \<Rightarrow> astar_loop grid goal rows cols heuristic_fn s')"
  by pat_completeness auto
termination
  by (relation "inv_image (less_than <*lex*> less_than)
        (\<lambda>(grid, goal, rows, cols, h, s). astar_measure rows cols s)")
     (auto intro: wf_inv_image wf_lex_prod dest: astar_step_decreases)

text \<open>\<open>astar(grid, start, goal, rows, cols, heuristic_fn)\<close>.\<close>

definition astar :: "cell_state list list \<Rightarrow> coord \<Rightarrow> coord \<Rightarrow> int \<Rightarrow> int
    \<Rightarrow> (coord \<Rightarrow> coord \<Rightarrow> 'p::linordered_idom) \<Rightarrow> (error + search_result) option" where
  "astar grid start goal rows cols heuristic_fn =
     (let start_h = heuristic_fn start goal
      in astar_loop grid goal rows cols heuristic_fn
           \<lparr>open_list = heappush [] (start_h, 0, start), came_from = [start \<mapsto> None],
            visited_order = [], frontier_snapshots = [],
            g_score = [start \<mapsto> 0], closed_set = {}\<rparr>)"

subsection \<open>Selector\<close>

text \<open>\<open>run_algorithm(algo_name, ...)\<close>: A* for the name \<open>"A*"\<close>, Greedy BFS for any other.\<close>

definition run_algorithm :: "string \<Rightarrow> cell_state list list \<Rightarrow> coord \<Rightarrow> coord \<Rightarrow> int \<Rightarrow> int
    \<Rightarrow> (coord \<Rightarrow> coord \<Rightarrow> 'p::linordered_idom) \<Rightarrow> (error + search_result) option" where
  "run_algorithm algo_name grid start goal rows cols heuristic_fn =
     (if algo_name = ''A*'' then astar grid start goal rows cols heuristic_fn
      else greedy_bfs grid start goal rows cols heuristic_fn)"

section \<open>Properties of the grid model\<close>

lemma py_range_set: "set (py_range n) = {i. 0 \<le> i \<and> i < n}"
  by (auto simp: py_range_def)

definition in_bounds :: "int \<Rightarrow> int \<Rightarrow> coord \<Rightarrow> bool" where
  "in_bounds rows cols p = (0 \<le> fst p \<and> fst p < rows \<and> 0 \<le> snd p \<and> snd p < cols)"

definition dims_ok :: "'a list list \<Rightarrow> int \<Rightarrow> int \<Rightarrow> bool" where
  "dims_ok cs rows cols = (int (length cs) = rows \<and> (\<forall>row \<in> set cs. int (length row) = cols))"

lemma py_index_inb: "0 \<le> i \<Longrightarrow> i < int (length xs) \<Longrightarrow> py_index xs i = Inr (nat i)"
  by (simp add: py_index_def)

lemma cells_get_inb:
  assumes "dims_ok cs rows cols" "in_bounds rows cols (r, c)"
  shows "cells_get cs r c = Inr (cs ! nat r ! nat c)"
proof -
  from assms have r: "0 \<le> r" "r < int (length cs)" by (auto simp: dims_ok_def in_bounds_def)
  then have "cs ! nat r \<in> set cs" by simp
  with assms have c: "0 \<le> c" "c < int (length (cs ! nat r))" by (auto simp: dims_ok_def in_bounds_def)
  show ?thesis using r c by (simp add: cells_get_def py_get_def py_index_inb)
qed

lemma cells_set_inb:
  assumes "dims_ok cs rows cols" "in_bounds rows cols (r, c)"
  shows "cells_set cs r c v = Inr (cs[nat r := (cs ! nat r)[nat c := v]])"
proof -
  from assms have r: "0 \<le> r" "r < int (length cs)" by (auto simp: dims_ok_def in_bounds_def)
  then have "cs ! nat r \<in> set cs" by simp
  with assms have c: "0 \<le> c" "c < int (length (cs ! nat r))" by (auto simp: dims_ok_def in_bounds_def)
  show ?thesis using r c by (simp add: cells_set_def py_set_def py_index_inb)
qed

lemma dims_ok_update:
  assumes "dims_ok cs rows cols" "i < length cs"
  shows "dims_ok (cs[i := (cs ! i)[j := v]]) rows cols"
  using assms unfolding dims_ok_def
  by (auto dest!: set_update_subset_insert[THEN subsetD])

lemma cell_update_nth:
  assumes "dims_ok cs rows cols" "in_bounds rows cols (r, c)" "in_bounds rows cols (r', c')"
  shows "cs[nat r := (cs ! nat r)[nat c := v]] ! nat r' ! nat c' = (if (r', c') = (r, c) then v else cs ! nat r' ! nat c')"
proof -
  from assms have r: "0 \<le> r" "r < int (length cs)" "0 \<le> r'" "r' < int (length cs)" by (auto simp: dims_ok_def in_bounds_def)
  then have "cs ! nat r \<in> set cs" by simp
  with assms have c: "0 \<le> c" "c < int (length (cs ! nat r))" "0 \<le> c'" "c' < int (length (cs ! nat r))" by (auto simp: dims_ok_def in_bounds_def)
  show ?thesis using r c by (auto simp: nth_list_update)
qed


definition grid_in_bounds :: "grid_manager \<Rightarrow> coord \<Rightarrow> bool" where
  "grid_in_bounds g p = in_bounds (grid_rows g) (grid_cols g) p"

definition grid_ok :: "grid_manager \<Rightarrow> bool" where
  "grid_ok g = (1 \<le> grid_rows g \<and> 1 \<le> grid_cols g \<and> dims_ok (grid_cells g) (grid_rows g) (grid_cols g))"

definition same_frame :: "grid_manager \<Rightarrow> grid_manager \<Rightarrow> bool" where
  "same_frame g g' = (grid_rows g' = grid_rows g \<and> grid_cols g' = grid_cols g
     \<and> grid_start g' = grid_start g \<and> grid_goal g' = grid_goal g)"

lemma get_cell_ok:
  "grid_ok g \<Longrightarrow> grid_in_bounds g (r, c) \<Longrightarrow> get_cell g r c = Inr (grid_cells g ! nat r ! nat c)"
  unfolding get_cell_def grid_ok_def grid_in_bounds_def by (blast intro: cells_get_inb)

lemma write_cell_ok:
  assumes "grid_ok g" "grid_in_bounds g (r, c)"
  shows "\<exists>g'. write_cell g r c v = (Inr (), g') \<and> grid_ok g' \<and> same_frame g g'
     \<and> (\<forall>r' c'. grid_in_bounds g (r', c') \<longrightarrow>
           get_cell g' r' c' = (if (r', c') = (r, c) then Inr v else get_cell g r' c'))"
proof -
  let ?cs = "grid_cells g"
  let ?cs' = "?cs[nat r := (?cs ! nat r)[nat c := v]]"
  let ?g' = "g\<lparr>grid_cells := ?cs'\<rparr>"
  from assms have d: "dims_ok ?cs (grid_rows g) (grid_cols g)"
    and b: "in_bounds (grid_rows g) (grid_cols g) (r, c)"
    by (simp_all add: grid_ok_def grid_in_bounds_def)
  have w: "write_cell g r c v = (Inr (), ?g')"
    by (simp add: write_cell_def cells_set_inb[OF d b])
  from d b have "nat r < length ?cs" by (auto simp: dims_ok_def in_bounds_def)
  then have d': "dims_ok ?cs' (grid_rows g) (grid_cols g)" using d by (rule dims_ok_update[rotated])
  then have ok: "grid_ok ?g'" using assms(1) by (simp add: grid_ok_def)
  have fr: "same_frame g ?g'" by (simp add: same_frame_def)
  have "get_cell ?g' r' c' = (if (r', c') = (r, c) then Inr v else get_cell g r' c')"
    if "grid_in_bounds g (r', c')" for r' c'
  proof -
    from that have b': "in_bounds (grid_rows g) (grid_cols g) (r', c')" by (simp add: grid_in_bounds_def)
    show ?thesis
      using cell_update_nth[OF d b b', of v]
      by (simp add: get_cell_def cells_get_inb[OF d' b'] cells_get_inb[OF d b'])
  qed
  with w ok fr show ?thesis by blast
qed

lemma same_frame_bounds: "same_frame g g' \<Longrightarrow> grid_in_bounds g' p = grid_in_bounds g p"
  by (simp add: same_frame_def grid_in_bounds_def)

lemma for_each_inv:
  assumes "P s"
    and "\<And>x s. x \<in> set xs \<Longrightarrow> P s \<Longrightarrow> fst (body x s) = Inr () \<and> P (snd (body x s))"
  shows "fst (for_each body xs s) = Inr () \<and> P (snd (for_each body xs s))"
  using assms
proof (induction xs arbitrary: s)
  case Nil
  then show ?case by simp
next
  case (Cons x xs)
  from Cons.prems(2)[of x s] Cons.prems(1)
  have b: "fst (body x s) = Inr ()" "P (snd (body x s))" by simp_all
  then obtain s' where s': "body x s = (Inr (), s')" by (cases "body x s") auto
  with b have "P s'" by simp
  from Cons.IH[OF this] Cons.prems(2) s' show ?case by simp
qed


definition anchors_ok :: "grid_manager \<Rightarrow> bool" where
  "anchors_ok g =
     (grid_in_bounds g (grid_start g) \<and> grid_in_bounds g (grid_goal g)
      \<and> grid_start g \<noteq> grid_goal g
      \<and> (\<forall>r c. grid_in_bounds g (r, c) \<longrightarrow>
            (get_cell g r c = Inr START \<longleftrightarrow> (r, c) = grid_start g)
          \<and> (get_cell g r c = Inr GOAL \<longleftrightarrow> (r, c) = grid_goal g)))"

definition grid_inv :: "grid_manager \<Rightarrow> bool" where
  "grid_inv g = (grid_ok g \<and> anchors_ok g)"

lemma write_plain:
  assumes inv: "grid_inv g" and b: "grid_in_bounds g (r, c)"
    and ns: "(r, c) \<noteq> grid_start g" and ng: "(r, c) \<noteq> grid_goal g"
    and v: "v = EMPTY \<or> v = OBSTACLE"
  shows "\<exists>g'. write_cell g r c v = (Inr (), g') \<and> grid_inv g' \<and> same_frame g g'
     \<and> (\<forall>r' c'. grid_in_bounds g (r', c') \<longrightarrow>
           get_cell g' r' c' = (if (r', c') = (r, c) then Inr v else get_cell g r' c'))"
proof -
  from inv have ok: "grid_ok g" and a: "anchors_ok g" by (simp_all add: grid_inv_def)
  from write_cell_ok[OF ok b, of v] obtain g' where
    w: "write_cell g r c v = (Inr (), g')" and ok': "grid_ok g'" and fr: "same_frame g g'"
    and cells: "\<And>r' c'. grid_in_bounds g (r', c') \<Longrightarrow>
           get_cell g' r' c' = (if (r', c') = (r, c) then Inr v else get_cell g r' c')"
    by blast
  have bb: "grid_in_bounds g' p = grid_in_bounds g p" for p
    using fr by (rule same_frame_bounds)
  have "anchors_ok g'"
    unfolding anchors_ok_def
  proof (intro conjI allI impI)
    show "grid_in_bounds g' (grid_start g')" using a fr by (simp add: bb anchors_ok_def same_frame_def)
    show "grid_in_bounds g' (grid_goal g')" using a fr by (simp add: bb anchors_ok_def same_frame_def)
    show "grid_start g' \<noteq> grid_goal g'" using a fr by (simp add: anchors_ok_def same_frame_def)
  next
    fix r' c' assume "grid_in_bounds g' (r', c')"
    then have b': "grid_in_bounds g (r', c')" by (simp add: bb)
    from a b' have old: "(get_cell g r' c' = Inr START \<longleftrightarrow> (r', c') = grid_start g)"
        "(get_cell g r' c' = Inr GOAL \<longleftrightarrow> (r', c') = grid_goal g)"
      by (simp_all add: anchors_ok_def)
    from fr have e: "grid_start g' = grid_start g" "grid_goal g' = grid_goal g"
      by (simp_all add: same_frame_def)
    show "get_cell g' r' c' = Inr START \<longleftrightarrow> (r', c') = grid_start g'"
      using cells[OF b'] old ns v e by auto
    show "get_cell g' r' c' = Inr GOAL \<longleftrightarrow> (r', c') = grid_goal g'"
      using cells[OF b'] old ng v e by auto
  qed
  with w ok' fr cells show ?thesis by (auto simp: grid_inv_def)
qed

lemma is_safe_to_edit_iff:
  "is_safe_to_edit g row col \<longleftrightarrow>
     (row, col) \<noteq> grid_start g \<and> (row, col) \<noteq> grid_goal g \<and> grid_in_bounds g (row, col)"
  by (auto simp: is_safe_to_edit_def grid_in_bounds_def in_bounds_def)

lemma toggle_obstacle_inv:
  assumes "grid_inv g"
  shows "\<exists>res g'. toggle_obstacle g row col = (Inr res, g') \<and> grid_inv g' \<and> same_frame g g'"
proof (cases "is_safe_to_edit g row col")
  case False
  then show ?thesis using assms by (simp add: toggle_obstacle_def same_frame_def)
next
  case True
  then have b: "grid_in_bounds g (row, col)" and ns: "(row, col) \<noteq> grid_start g"
    and ng: "(row, col) \<noteq> grid_goal g" by (simp_all add: is_safe_to_edit_iff)
  from assms have ok: "grid_ok g" by (simp add: grid_inv_def)
  have rd: "cells_get (grid_cells g) row col = Inr (grid_cells g ! nat row ! nat col)"
    using get_cell_ok[OF ok b] by (simp add: get_cell_def)
  from write_plain[OF assms b ns ng, of EMPTY] obtain g1 where
    w1: "write_cell g row col EMPTY = (Inr (), g1)" "grid_inv g1" "same_frame g g1" by auto
  from write_plain[OF assms b ns ng, of OBSTACLE] obtain g2 where
    w2: "write_cell g row col OBSTACLE = (Inr (), g2)" "grid_inv g2" "same_frame g g2" by auto
  show ?thesis using True rd w1 w2 by (simp add: toggle_obstacle_def)
qed

lemma place_obstacle_inv:
  assumes "grid_inv g"
  shows "\<exists>res g'. place_obstacle g row col = (Inr res, g') \<and> grid_inv g' \<and> same_frame g g'"
proof (cases "is_safe_to_edit g row col")
  case False
  then show ?thesis using assms by (auto simp: place_obstacle_def same_frame_def)
next
  case True
  then have b: "grid_in_bounds g (row, col)" and ns: "(row, col) \<noteq> grid_start g"
    and ng: "(row, col) \<noteq> grid_goal g" by (simp_all add: is_safe_to_edit_iff)
  from assms have ok: "grid_ok g" by (simp add: grid_inv_def)
  have rd: "cells_get (grid_cells g) row col = Inr (grid_cells g ! nat row ! nat col)"
    using get_cell_ok[OF ok b] by (simp add: get_cell_def)
  from write_plain[OF assms b ns ng, of OBSTACLE] obtain g2 where
    w2: "write_cell g row col OBSTACLE = (Inr (), g2)" "grid_inv g2" "same_frame g g2" by auto
  show ?thesis using True rd w2 assms by (auto simp: place_obstacle_def same_frame_def)
qed

lemma all_cells_set: "set (all_cells g) = {p. grid_in_bounds g p}"
  by (auto simp: all_cells_def py_range_set grid_in_bounds_def in_bounds_def)

lemma same_frame_refl: "same_frame g g"
  by (simp add: same_frame_def)

lemma same_frame_trans: "same_frame g g' \<Longrightarrow> same_frame g' g'' \<Longrightarrow> same_frame g g''"
  by (simp add: same_frame_def)

lemma clear_body_inv:
  assumes inv: "grid_inv g" and b: "grid_in_bounds g p"
  shows "fst (clear_body p g) = Inr () \<and> grid_inv (snd (clear_body p g))
     \<and> same_frame g (snd (clear_body p g))"
proof -
  obtain r c where p: "p = (r, c)" by (cases p)
  from inv have ok: "grid_ok g" and a: "anchors_ok g" by (simp_all add: grid_inv_def)
  have rd: "get_cell g r c = Inr (grid_cells g ! nat r ! nat c)"
    using get_cell_ok[OF ok] b p by simp
  show ?thesis
  proof (cases "grid_cells g ! nat r ! nat c = OBSTACLE")
    case False
    then show ?thesis using rd inv p by (simp add: clear_body_def get_cell_def same_frame_def)
  next
    case True
    with rd have o: "get_cell g r c = Inr OBSTACLE" by simp
    from a b p have "(get_cell g r c = Inr START) = ((r, c) = grid_start g)"
        "(get_cell g r c = Inr GOAL) = ((r, c) = grid_goal g)"
      by (simp_all add: anchors_ok_def)
    with o have ns: "(r, c) \<noteq> grid_start g" and ng: "(r, c) \<noteq> grid_goal g"
      by auto
    from write_plain[OF inv _ ns ng, of EMPTY] b p obtain g1 where
      w1: "write_cell g r c EMPTY = (Inr (), g1)" "grid_inv g1" "same_frame g g1" by auto
    show ?thesis using o w1 p by (simp add: clear_body_def get_cell_def)
  qed
qed

lemma clear_obstacles_inv:
  assumes "grid_inv g"
  shows "\<exists>g'. clear_obstacles g = (Inr (), g') \<and> grid_inv g' \<and> same_frame g g'"
proof -
  have "fst (for_each clear_body (all_cells g) g) = Inr ()
      \<and> (grid_inv (snd (for_each clear_body (all_cells g) g))
         \<and> same_frame g (snd (for_each clear_body (all_cells g) g)))"
  proof (rule for_each_inv[where P = "\<lambda>g'. grid_inv g' \<and> same_frame g g'"])
    show "grid_inv g \<and> same_frame g g" using assms by (simp add: same_frame_refl)
  next
    fix x s assume x: "x \<in> set (all_cells g)" and s: "grid_inv s \<and> same_frame g s"
    then have "grid_in_bounds s x" using same_frame_bounds[of g s x] by (simp add: all_cells_set)
    from clear_body_inv[OF _ this] s
    show "fst (clear_body x s) = Inr () \<and> grid_inv (snd (clear_body x s)) \<and> same_frame g (snd (clear_body x s))"
      by (blast intro: same_frame_trans)
  qed
  then show ?thesis by (cases "for_each clear_body (all_cells g) g") (auto simp: clear_obstacles_def)
qed


lemma generate_body_inv:
  assumes inv: "grid_inv g" and b: "grid_in_bounds g p"
  shows "fst (generate_body density draws p (g, k)) = Inr ()
     \<and> grid_inv (fst (snd (generate_body density draws p (g, k))))
     \<and> same_frame g (fst (snd (generate_body density draws p (g, k))))"
proof (cases "p = grid_start g \<or> p = grid_goal g")
  case True
  then show ?thesis using inv by (simp add: generate_body_def same_frame_refl)
next
  case False
  obtain r c where p: "p = (r, c)" by (cases p)
  from False p have ns: "(r, c) \<noteq> grid_start g" and ng: "(r, c) \<noteq> grid_goal g" by auto
  from b p have b': "grid_in_bounds g (r, c)" by simp
  from write_plain[OF inv b' ns ng, of EMPTY] obtain g1 where
    w1: "write_cell g r c EMPTY = (Inr (), g1)" "grid_inv g1" "same_frame g g1" by auto
  from write_plain[OF inv b' ns ng, of OBSTACLE] obtain g2 where
    w2: "write_cell g r c OBSTACLE = (Inr (), g2)" "grid_inv g2" "same_frame g g2" by auto
  show ?thesis using False w1 w2 p by (simp add: generate_body_def)
qed

lemma generate_random_inv:
  assumes "grid_inv g"
  shows "\<exists>g'. generate_random g density_percent draws = (Inr (), g') \<and> grid_inv g' \<and> same_frame g g'"
proof -
  let ?body = "generate_body (of_int density_percent / 100) draws"
  have "fst (for_each ?body (all_cells g) (g, 0)) = Inr ()
      \<and> (grid_inv (fst (snd (for_each ?body (all_cells g) (g, 0))))
         \<and> same_frame g (fst (snd (for_each ?body (all_cells g) (g, 0)))))"
  proof (rule for_each_inv[where P = "\<lambda>s. grid_inv (fst s) \<and> same_frame g (fst s)"])
    show "grid_inv (fst (g, 0::nat)) \<and> same_frame g (fst (g, 0::nat))"
      using assms by (simp add: same_frame_refl)
  next
    fix x and s :: "grid_manager \<times> nat"
    assume x: "x \<in> set (all_cells g)" and s: "grid_inv (fst s) \<and> same_frame g (fst s)"
    obtain g1 k where sk: "s = (g1, k)" by (cases s)
    from x s sk have "grid_in_bounds g1 x" using same_frame_bounds[of g g1 x] by (simp add: all_cells_set)
    from generate_body_inv[OF _ this, of "of_int density_percent / 100" draws k] s sk
    show "fst (?body x s) = Inr () \<and> grid_inv (fst (snd (?body x s))) \<and> same_frame g (fst (snd (?body x s)))"
      by (auto intro: same_frame_trans)
  qed
  then show ?thesis
    by (cases "for_each ?body (all_cells g) (g, 0)") (auto simp: generate_random_def)
qed

lemma move_start_inv:
  assumes inv: "grid_inv g" and b: "grid_in_bounds g (new_row, new_col)"
  shows "\<exists>res g'. move_start g new_row new_col = (Inr res, g') \<and> grid_inv g'
     \<and> grid_rows g' = grid_rows g \<and> grid_cols g' = grid_cols g"
proof (cases "(new_row, new_col) = grid_goal g")
  case True
  then show ?thesis using inv by (simp add: move_start_def)
next
  case False
  from inv have ok: "grid_ok g" and a: "anchors_ok g" by (simp_all add: grid_inv_def)
  obtain sr sc where st: "grid_start g = (sr, sc)" by (cases "grid_start g")
  from a st have bs: "grid_in_bounds g (sr, sc)" by (simp add: anchors_ok_def)
  from write_cell_ok[OF ok bs, of EMPTY] obtain g1 where
    w1: "write_cell g sr sc EMPTY = (Inr (), g1)" and ok1: "grid_ok g1" and fr1: "same_frame g g1"
    and c1: "\<And>r' c'. grid_in_bounds g (r', c') \<Longrightarrow>
           get_cell g1 r' c' = (if (r', c') = (sr, sc) then Inr EMPTY else get_cell g r' c')"
    by blast
  let ?g1' = "g1\<lparr>grid_start := (new_row, new_col)\<rparr>"
  have ok1': "grid_ok ?g1'" using ok1 by (simp add: grid_ok_def)
  have b1: "grid_in_bounds ?g1' (new_row, new_col)"
    using b fr1 by (simp add: grid_in_bounds_def same_frame_def)
  from write_cell_ok[OF ok1' b1, of START] obtain g2 where
    w2: "write_cell ?g1' new_row new_col START = (Inr (), g2)" and ok2: "grid_ok g2"
    and fr2: "same_frame ?g1' g2"
    and c2: "\<And>r' c'. grid_in_bounds ?g1' (r', c') \<Longrightarrow>
           get_cell g2 r' c' = (if (r', c') = (new_row, new_col) then Inr START else get_cell ?g1' r' c')"
    by blast
  have g1c: "get_cell ?g1' r' c' = get_cell g1 r' c'" for r' c' by (simp add: get_cell_def)
  have bb: "grid_in_bounds g2 q = grid_in_bounds g q" "grid_in_bounds ?g1' q = grid_in_bounds g q" for q
    using fr1 fr2 by (simp_all add: grid_in_bounds_def same_frame_def)
  have e: "grid_start g2 = (new_row, new_col)" "grid_goal g2 = grid_goal g"
    using fr1 fr2 by (simp_all add: same_frame_def)
  have "anchors_ok g2"
    unfolding anchors_ok_def
  proof (intro conjI allI impI)
    show "grid_in_bounds g2 (grid_start g2)" using b by (simp add: bb e)
    show "grid_in_bounds g2 (grid_goal g2)" using a by (simp add: bb e anchors_ok_def)
    show "grid_start g2 \<noteq> grid_goal g2" using False by (simp add: e)
  next
    fix r' c' assume "grid_in_bounds g2 (r', c')"
    then have b': "grid_in_bounds g (r', c')" by (simp add: bb)
    from a b' have old: "(get_cell g r' c' = Inr START \<longleftrightarrow> (r', c') = grid_start g)"
        "(get_cell g r' c' = Inr GOAL \<longleftrightarrow> (r', c') = grid_goal g)"
      by (simp_all add: anchors_ok_def)
    have new: "get_cell g2 r' c' = (if (r', c') = (new_row, new_col) then Inr START
        else if (r', c') = (sr, sc) then Inr EMPTY else get_cell g r' c')"
    proof (cases "(r', c') = (new_row, new_col)")
      case True
      then show ?thesis using c2[of r' c'] b' by (simp add: bb)
    next
      case False
      then have "get_cell g2 r' c' = get_cell g1 r' c'"
        using c2[of r' c'] b' by (auto simp: bb g1c)
      then show ?thesis using c1[OF b'] False by auto
    qed
    show "get_cell g2 r' c' = Inr START \<longleftrightarrow> (r', c') = grid_start g2"
      using new old st e by auto
    show "get_cell g2 r' c' = Inr GOAL \<longleftrightarrow> (r', c') = grid_goal g2"
      using new old st e False a by (auto simp: anchors_ok_def)
  qed
  moreover have "move_start g new_row new_col = (Inr (Some (sr, sc)), g2)"
    using False st w1 w2 by (simp add: move_start_def)
  moreover have "grid_rows g2 = grid_rows g \<and> grid_cols g2 = grid_cols g"
    using fr1 fr2 by (simp add: same_frame_def)
  ultimately show ?thesis using ok2 by (simp add: grid_inv_def)
qed

lemma move_goal_inv:
  assumes inv: "grid_inv g" and b: "grid_in_bounds g (new_row, new_col)"
  shows "\<exists>res g'. move_goal g new_row new_col = (Inr res, g') \<and> grid_inv g'
     \<and> grid_rows g' = grid_rows g \<and> grid_cols g' = grid_cols g"
proof (cases "(new_row, new_col) = grid_start g")
  case True
  then show ?thesis using inv by (simp add: move_goal_def)
next
  case False
  from inv have ok: "grid_ok g" and a: "anchors_ok g" by (simp_all add: grid_inv_def)
  obtain sr sc where st: "grid_goal g = (sr, sc)" by (cases "grid_goal g")
  from a st have bs: "grid_in_bounds g (sr, sc)" by (simp add: anchors_ok_def)
  from write_cell_ok[OF ok bs, of EMPTY] obtain g1 where
    w1: "write_cell g sr sc EMPTY = (Inr (), g1)" and ok1: "grid_ok g1" and fr1: "same_frame g g1"
    and c1: "\<And>r' c'. grid_in_bounds g (r', c') \<Longrightarrow>
           get_cell g1 r' c' = (if (r', c') = (sr, sc) then Inr EMPTY else get_cell g r' c')"
    by blast
  let ?g1' = "g1\<lparr>grid_goal := (new_row, new_col)\<rparr>"
  have ok1': "grid_ok ?g1'" using ok1 by (simp add: grid_ok_def)
  have b1: "grid_in_bounds ?g1' (new_row, new_col)"
    using b fr1 by (simp add: grid_in_bounds_def same_frame_def)
  from write_cell_ok[OF ok1' b1, of GOAL] obtain g2 where
    w2: "write_cell ?g1' new_row new_col GOAL = (Inr (), g2)" and ok2: "grid_ok g2"
    and fr2: "same_frame ?g1' g2"
    and c2: "\<And>r' c'. grid_in_bounds ?g1' (r', c') \<Longrightarrow>
           get_cell g2 r' c' = (if (r', c') = (new_row, new_col) then Inr GOAL else get_cell ?g1' r' c')"
    by blast
  have g1c: "get_cell ?g1' r' c' = get_cell g1 r' c'" for r' c' by (simp add: get_cell_def)
  have bb: "grid_in_bounds g2 q = grid_in_bounds g q" "grid_in_bounds ?g1' q = grid_in_bounds g q" for q
    using fr1 fr2 by (simp_all add: grid_in_bounds_def same_frame_def)
  have e: "grid_goal g2 = (new_row, new_col)" "grid_start g2 = grid_start g"
    using fr1 fr2 by (simp_all add: same_frame_def)
  have "anchors_ok g2"
    unfolding anchors_ok_def
  proof (intro conjI allI impI)
    show "grid_in_bounds g2 (grid_goal g2)" using b by (simp add: bb e)
    show "grid_in_bounds g2 (grid_start g2)" using a by (simp add: bb e anchors_ok_def)
    show "grid_start g2 \<noteq> grid_goal g2" using False by (auto simp: e)
  next
    fix r' c' assume "grid_in_bounds g2 (r', c')"
    then have b': "grid_in_bounds g (r', c')" by (simp add: bb)
    from a b' have old: "(get_cell g r' c' = Inr START \<longleftrightarrow> (r', c') = grid_start g)"
        "(get_cell g r' c' = Inr GOAL \<longleftrightarrow> (r', c') = grid_goal g)"
      by (simp_all add: anchors_ok_def)
    have new: "get_cell g2 r' c' = (if (r', c') = (new_row, new_col) then Inr GOAL
        else if (r', c') = (sr, sc) then Inr EMPTY else get_cell g r' c')"
    proof (cases "(r', c') = (new_row, new_col)")
      case True
      then show ?thesis using c2[of r' c'] b' by (simp add: bb)
    next
      case False
      then have "get_cell g2 r' c' = get_cell g1 r' c'"
        using c2[of r' c'] b' by (auto simp: bb g1c)
      then show ?thesis using c1[OF b'] False by auto
    qed
    show "get_cell g2 r' c' = Inr GOAL \<longleftrightarrow> (r', c') = grid_goal g2"
      using new old st e by auto
    show "get_cell g2 r' c' = Inr START \<longleftrightarrow> (r', c') = grid_start g2"
      using new old st e False a by (auto simp: anchors_ok_def)
  qed
  moreover have "move_goal g new_row new_col = (Inr (Some (sr, sc)), g2)"
    using False st w1 w2 by (simp add: move_goal_def)
  moreover have "grid_rows g2 = grid_rows g \<and> grid_cols g2 = grid_cols g"
    using fr1 fr2 by (simp add: same_frame_def)
  ultimately show ?thesis using ok2 by (simp add: grid_inv_def)
qed


definition spawn_candidate :: "grid_manager \<Rightarrow> coord \<Rightarrow> coord \<Rightarrow> bool" where
  "spawn_candidate g agent_pos q =
     (q \<noteq> grid_start g \<and> q \<noteq> grid_goal g \<and> q \<noteq> agent_pos
      \<and> get_cell g (fst q) (snd q) \<noteq> Inr OBSTACLE)"

definition mark_obstacle :: "grid_manager \<Rightarrow> coord \<Rightarrow> grid_manager" where
  "mark_obstacle g q =
     g\<lparr>grid_cells := (grid_cells g)[nat (fst q) := (grid_cells g ! nat (fst q))[nat (snd q) := OBSTACLE]]\<rparr>"

lemma write_cell_mark:
  assumes "grid_ok g" "grid_in_bounds g (r, c)"
  shows "write_cell g r c OBSTACLE = (Inr (), mark_obstacle g (r, c))"
proof -
  from assms have d: "dims_ok (grid_cells g) (grid_rows g) (grid_cols g)"
    and b: "in_bounds (grid_rows g) (grid_cols g) (r, c)"
    by (simp_all add: grid_ok_def grid_in_bounds_def)
  show ?thesis by (simp add: write_cell_def cells_set_inb[OF d b] mark_obstacle_def)
qed

lemma spawn_loop_find:
  assumes ok: "grid_ok g" and b: "\<forall>i \<in> set attempts. grid_in_bounds g (picks i)"
  shows "spawn_loop g agent_pos current_path picks attempts =
     (case find (\<lambda>i. spawn_candidate g agent_pos (picks i)) attempts of
        None \<Rightarrow> (Inr (None, False), g)
      | Some i \<Rightarrow> (Inr (Some (picks i), picks i \<in> set current_path), mark_obstacle g (picks i)))"
  using b
proof (induction attempts)
  case Nil
  then show ?case by simp
next
  case (Cons i rest)
  obtain r c where p: "picks i = (r, c)" by (cases "picks i")
  from Cons.prems p have bi: "grid_in_bounds g (r, c)" by simp
  from ok have "0 \<le> grid_rows g - 1" "0 \<le> grid_cols g - 1" by (simp_all add: grid_ok_def)
  then have ri: "randint 0 (grid_rows g - 1) r = Inr r" "randint 0 (grid_cols g - 1) c = Inr c"
    by (simp_all add: randint_def)
  have rd: "cells_get (grid_cells g) r c = Inr (grid_cells g ! nat r ! nat c)"
    using get_cell_ok[OF ok bi] by (simp add: get_cell_def)
  from Cons have IH: "spawn_loop g agent_pos current_path picks rest =
     (case find (\<lambda>i. spawn_candidate g agent_pos (picks i)) rest of
        None \<Rightarrow> (Inr (None, False), g)
      | Some i \<Rightarrow> (Inr (Some (picks i), picks i \<in> set current_path), mark_obstacle g (picks i)))"
    by simp
  show ?case
  proof (cases "spawn_candidate g agent_pos (picks i)")
    case True
    then show ?thesis
      using p ri rd write_cell_mark[OF ok bi]
      by (simp add: spawn_candidate_def get_cell_def)
  next
    case False
    then show ?thesis
      using p ri rd IH
      by (auto simp: spawn_candidate_def get_cell_def)
  qed
qed

lemma find_upt_Some:
  "find P [0..<n] = Some i \<longleftrightarrow> i < n \<and> P i \<and> (\<forall>j<i. \<not> P j)"
  by (auto simp: find_Some_iff)

lemma find_upt_None: "find P [0..<n] = None \<longleftrightarrow> (\<forall>i<n. \<not> P i)"
  by (auto simp: find_None_iff)

definition count_state :: "grid_manager \<Rightarrow> cell_state \<Rightarrow> nat" where
  "count_state g v = length (filter (\<lambda>x. x = v) (concat (grid_cells g)))"

lemma py_range_length: "length (py_range n) = nat n"
  by (simp add: py_range_def)

lemma make_empty_grid_dims: "0 \<le> rows \<Longrightarrow> 0 \<le> cols \<Longrightarrow> dims_ok (make_empty_grid rows cols) rows cols"
  by (auto simp: dims_ok_def make_empty_grid_def py_range_length)

lemma make_empty_grid_nth:
  assumes "in_bounds rows cols (r, c)"
  shows "make_empty_grid rows cols ! nat r ! nat c = EMPTY"
proof -
  from assms have "nat r < length (py_range rows)" "nat c < length (py_range cols)"
    by (auto simp: in_bounds_def py_range_length)
  then show ?thesis by (simp add: make_empty_grid_def)
qed

lemma create_inv:
  assumes r: "1 \<le> rows" and c: "1 \<le> cols" and two: "(rows, cols) \<noteq> (1, 1)"
  shows "\<exists>g. create rows cols = Inr g \<and> grid_inv g \<and> grid_rows g = rows \<and> grid_cols g = cols"
proof -
  let ?g0 = "\<lparr>grid_rows = rows, grid_cols = cols, grid_start = (0, 0),
                grid_goal = (rows - 1, cols - 1), grid_cells = make_empty_grid rows cols\<rparr>"
  have ok0: "grid_ok ?g0" using r c by (simp add: grid_ok_def make_empty_grid_dims)
  have bs: "grid_in_bounds ?g0 (0, 0)" and bg: "grid_in_bounds ?g0 (rows - 1, cols - 1)"
    using r c by (simp_all add: grid_in_bounds_def in_bounds_def)
  have e0: "get_cell ?g0 r' c' = Inr EMPTY" if "grid_in_bounds ?g0 (r', c')" for r' c'
    using get_cell_ok[OF ok0 that] that make_empty_grid_nth[of rows cols r' c']
    by (simp add: grid_in_bounds_def)
  from write_cell_ok[OF ok0 bs, of START] obtain g1 where
    w1: "write_cell ?g0 0 0 START = (Inr (), g1)" and ok1: "grid_ok g1" and fr1: "same_frame ?g0 g1"
    and c1: "\<And>r' c'. grid_in_bounds ?g0 (r', c') \<Longrightarrow>
           get_cell g1 r' c' = (if (r', c') = (0, 0) then Inr START else get_cell ?g0 r' c')"
    by blast
  have bb1: "grid_in_bounds g1 q = grid_in_bounds ?g0 q" for q
    using fr1 by (rule same_frame_bounds)
  have e1: "grid_start g1 = (0, 0)" "grid_goal g1 = (rows - 1, cols - 1)"
     "grid_rows g1 = rows" "grid_cols g1 = cols"
    using fr1 by (simp_all add: same_frame_def)
  from bg have bg1: "grid_in_bounds g1 (rows - 1, cols - 1)" by (simp add: bb1)
  from write_cell_ok[OF ok1 bg1, of GOAL] obtain g2 where
    w2: "write_cell g1 (rows - 1) (cols - 1) GOAL = (Inr (), g2)" and ok2: "grid_ok g2"
    and fr2: "same_frame g1 g2"
    and c2: "\<And>r' c'. grid_in_bounds g1 (r', c') \<Longrightarrow>
           get_cell g2 r' c' = (if (r', c') = (rows - 1, cols - 1) then Inr GOAL else get_cell g1 r' c')"
    by blast
  have bb2: "grid_in_bounds g2 q = grid_in_bounds ?g0 q" for q
    using same_frame_bounds[OF fr2] bb1 by simp
  have e2: "grid_start g2 = (0, 0)" "grid_goal g2 = (rows - 1, cols - 1)"
     "grid_rows g2 = rows" "grid_cols g2 = cols"
    using fr2 e1 by (simp_all add: same_frame_def)
  have cr: "create rows cols = Inr g2"
    using w1 w2 e1 by (simp add: create_def Let_def)
  have ne: "(0, 0) \<noteq> (rows - 1, cols - 1)" using two by auto
  have "anchors_ok g2"
    unfolding anchors_ok_def
  proof (intro conjI allI impI)
    show "grid_in_bounds g2 (grid_start g2)" using bs by (simp add: bb2 e2)
    show "grid_in_bounds g2 (grid_goal g2)" using bg by (simp add: bb2 e2)
    show "grid_start g2 \<noteq> grid_goal g2" using ne by (simp add: e2)
  next
    fix r' c' assume "grid_in_bounds g2 (r', c')"
    then have b': "grid_in_bounds ?g0 (r', c')" by (simp add: bb2)
    have new: "get_cell g2 r' c' = (if (r', c') = (rows - 1, cols - 1) then Inr GOAL
        else if (r', c') = (0, 0) then Inr START else Inr EMPTY)"
    proof (cases "(r', c') = (rows - 1, cols - 1)")
      case True
      then show ?thesis using c2[of r' c'] b' by (simp add: bb1)
    next
      case False
      then have "get_cell g2 r' c' = get_cell g1 r' c'"
        using c2[of r' c'] b' by (auto simp: bb1)
      then show ?thesis using c1[OF b'] e0[OF b'] False by auto
    qed
    show "get_cell g2 r' c' = Inr START \<longleftrightarrow> (r', c') = grid_start g2"
      using new ne by (auto simp: e2)
    show "get_cell g2 r' c' = Inr GOAL \<longleftrightarrow> (r', c') = grid_goal g2"
      using new ne by (auto simp: e2)
  qed
  with cr ok2 e2 show ?thesis by (simp add: grid_inv_def)
qed

lemma sum_list_single:
  "i < length ns \<Longrightarrow> (\<forall>k<length ns. k \<noteq> i \<longrightarrow> ns ! k = (0::nat)) \<Longrightarrow> sum_list ns = ns ! i"
proof (induction ns arbitrary: i)
  case Nil
  then show ?case by simp
next
  case (Cons n ns)
  show ?case
  proof (cases i)
    case 0
    have "\<forall>x \<in> set ns. x = 0"
    proof
      fix x assume "x \<in> set ns"
      then obtain k where "k < length ns" "ns ! k = x" by (auto simp: in_set_conv_nth)
      with Cons.prems(2)[rule_format, of "Suc k"] 0 show "x = 0" by simp
    qed
    then have "sum_list ns = 0" by (simp add: sum_list_eq_0_iff)
    with 0 show ?thesis by simp
  next
    case (Suc j)
    from Cons.prems(2)[rule_format, of 0] Suc have n0: "n = 0" by simp
    have "\<forall>k<length ns. k \<noteq> j \<longrightarrow> ns ! k = 0"
      using Cons.prems(2)[rule_format, of "Suc k" for k] Suc by auto
    from Cons.IH[OF _ this] Cons.prems(1) Suc n0 show ?thesis by simp
  qed
qed

lemma count_concat:
  "length (filter P (concat xss)) = sum_list (map (\<lambda>xs. length (filter P xs)) xss)"
  by (induction xss) simp_all

lemma count_row:
  "length (filter (\<lambda>x. x = v) xs) = sum_list (map (\<lambda>x. if x = v then 1 else 0) xs)"
  by (induction xs) simp_all

lemma count_state_unique:
  assumes ok: "grid_ok g" and b: "grid_in_bounds g p"
    and at: "get_cell g (fst p) (snd p) = Inr v"
    and only: "\<forall>q. grid_in_bounds g q \<and> get_cell g (fst q) (snd q) = Inr v \<longrightarrow> q = p"
  shows "count_state g v = 1"
proof -
  let ?cs = "grid_cells g"
  let ?i = "nat (fst p)" and ?j = "nat (snd p)"
  from ok have len: "int (length ?cs) = grid_rows g"
    and rowlen: "\<And>row. row \<in> set ?cs \<Longrightarrow> int (length row) = grid_cols g"
    by (simp_all add: grid_ok_def dims_ok_def)
  have cell: "?cs ! k ! l = v \<longleftrightarrow> (int k, int l) = p" if "k < length ?cs" "l < length (?cs ! k)" for k l
  proof -
    from that have "?cs ! k \<in> set ?cs" by simp
    from rowlen[OF this] that len have bq: "grid_in_bounds g (int k, int l)"
      by (auto simp: grid_in_bounds_def in_bounds_def)
    from get_cell_ok[OF ok bq] have g: "get_cell g (int k) (int l) = Inr (?cs ! k ! l)" by simp
    show ?thesis
    proof
      assume "?cs ! k ! l = v"
      with g bq only show "(int k, int l) = p" by auto
    next
      assume "(int k, int l) = p"
      with g at show "?cs ! k ! l = v" by auto
    qed
  qed
  from b len have i: "?i < length ?cs" by (auto simp: grid_in_bounds_def in_bounds_def)
  then have "?cs ! ?i \<in> set ?cs" by simp
  from rowlen[OF this] b have j: "?j < length (?cs ! ?i)" by (auto simp: grid_in_bounds_def in_bounds_def)
  from b have pp: "p = (int ?i, int ?j)" by (cases p) (auto simp: grid_in_bounds_def in_bounds_def)
  let ?row = "\<lambda>xs. length (filter (\<lambda>x. x = v) xs)"
  have rowi: "?row (?cs ! ?i) = 1"
  proof -
    let ?ns = "map (\<lambda>x. if x = v then 1 else 0::nat) (?cs ! ?i)"
    have "sum_list ?ns = ?ns ! ?j"
    proof (rule sum_list_single)
      show "?j < length ?ns" using j by simp
      show "\<forall>k<length ?ns. k \<noteq> ?j \<longrightarrow> ?ns ! k = 0"
        using cell[OF i] pp by (auto simp: prod_eq_iff)
    qed
    moreover have "?ns ! ?j = 1" using cell[OF i j] pp j by simp
    ultimately show ?thesis by (simp add: count_row)
  qed
  have others: "?row (?cs ! k) = 0" if "k < length ?cs" "k \<noteq> ?i" for k
  proof -
    have "x \<noteq> v" if "x \<in> set (?cs ! k)" for x
    proof -
      from that obtain l where l: "l < length (?cs ! k)" "?cs ! k ! l = x"
        by (auto simp: in_set_conv_nth)
      from cell[OF \<open>k < length ?cs\<close> l(1)] l(2) pp \<open>k \<noteq> ?i\<close> show ?thesis
        by (auto simp: prod_eq_iff)
    qed
    then show ?thesis by (auto simp: filter_empty_conv)
  qed
  let ?ms = "map ?row ?cs"
  have "sum_list ?ms = ?ms ! ?i"
  proof (rule sum_list_single)
    show "?i < length ?ms" using i by simp
    show "\<forall>k<length ?ms. k \<noteq> ?i \<longrightarrow> ?ms ! k = 0" using others by simp
  qed
  with rowi i show ?thesis by (simp add: count_state_def count_concat)
qed

lemma count_state_zero:
  assumes ok: "grid_ok g"
    and none: "\<forall>q. grid_in_bounds g q \<longrightarrow> get_cell g (fst q) (snd q) \<noteq> Inr v"
  shows "count_state g v = 0"
proof -
  let ?cs = "grid_cells g"
  from ok have len: "int (length ?cs) = grid_rows g"
    and rowlen: "\<And>row. row \<in> set ?cs \<Longrightarrow> int (length row) = grid_cols g"
    by (simp_all add: grid_ok_def dims_ok_def)
  have "x \<noteq> v" if "x \<in> set (concat ?cs)" for x
  proof -
    from that obtain row where row: "row \<in> set ?cs" "x \<in> set row" by auto
    then obtain k l where k: "k < length ?cs" "?cs ! k = row" and l: "l < length row" "row ! l = x"
      by (auto simp: in_set_conv_nth)
    with rowlen[OF row(1)] len have bq: "grid_in_bounds g (int k, int l)"
      by (auto simp: grid_in_bounds_def in_bounds_def)
    from get_cell_ok[OF ok bq] k l have "get_cell g (int k) (int l) = Inr x" by simp
    with none bq show ?thesis by auto
  qed
  then show ?thesis by (auto simp: count_state_def filter_empty_conv)
qed


lemma try_spawn_inv:
  assumes inv: "grid_inv g" and b: "\<forall>i<20. grid_in_bounds g (picks i)"
  shows "\<exists>res g'. try_spawn_dynamic_obstacle g agent_pos current_path spawn_prob u picks = (Inr res, g')
     \<and> grid_inv g' \<and> same_frame g g'"
proof (cases "u > spawn_prob")
  case True
  then show ?thesis using inv by (auto simp: try_spawn_dynamic_obstacle_def same_frame_refl)
next
  case False
  from inv have ok: "grid_ok g" by (simp add: grid_inv_def)
  have b': "\<forall>i \<in> set [0..<20]. grid_in_bounds g (picks i)" using b by simp
  note loop = spawn_loop_find[OF ok b', of agent_pos current_path]
  show ?thesis
  proof (cases "find (\<lambda>i. spawn_candidate g agent_pos (picks i)) [0..<20]")
    case None
    then show ?thesis using False inv loop
      by (auto simp: try_spawn_dynamic_obstacle_def same_frame_refl)
  next
    case (Some i)
    then have i: "i < 20" and cand: "spawn_candidate g agent_pos (picks i)"
      by (simp_all add: find_upt_Some)
    obtain r c where p: "picks i = (r, c)" by (cases "picks i")
    from b i p have bi: "grid_in_bounds g (r, c)" by auto
    from cand p have ns: "(r, c) \<noteq> grid_start g" and ng: "(r, c) \<noteq> grid_goal g"
      by (simp_all add: spawn_candidate_def)
    from write_plain[OF inv bi ns ng, of OBSTACLE] write_cell_mark[OF ok bi]
    have "grid_inv (mark_obstacle g (r, c))" "same_frame g (mark_obstacle g (r, c))" by auto
    then show ?thesis using False Some loop p
      by (auto simp: try_spawn_dynamic_obstacle_def)
  qed
qed

datatype grid_op =
    Toggle_obstacle int int
  | Place_obstacle int int
  | Generate_random int "nat \<Rightarrow> rat"
  | Clear_obstacles
  | Move_start int int
  | Move_goal int int
  | Try_spawn coord "coord list" rat rat "nat \<Rightarrow> coord"

fun apply_op :: "grid_manager \<Rightarrow> grid_op \<Rightarrow> grid_manager" where
  "apply_op g (Toggle_obstacle row col) = snd (toggle_obstacle g row col)"
| "apply_op g (Place_obstacle row col) = snd (place_obstacle g row col)"
| "apply_op g (Generate_random density_percent draws) = snd (generate_random g density_percent draws)"
| "apply_op g Clear_obstacles = snd (clear_obstacles g)"
| "apply_op g (Move_start new_row new_col) = snd (move_start g new_row new_col)"
| "apply_op g (Move_goal new_row new_col) = snd (move_goal g new_row new_col)"
| "apply_op g (Try_spawn agent_pos current_path spawn_prob u picks) =
     snd (try_spawn_dynamic_obstacle g agent_pos current_path spawn_prob u picks)"

definition run_ops :: "grid_manager \<Rightarrow> grid_op list \<Rightarrow> grid_manager" where
  "run_ops g ops = foldl apply_op g ops"

fun op_in_range :: "int \<Rightarrow> int \<Rightarrow> grid_op \<Rightarrow> bool" where
  "op_in_range rows cols (Move_start new_row new_col) = in_bounds rows cols (new_row, new_col)"
| "op_in_range rows cols (Move_goal new_row new_col) = in_bounds rows cols (new_row, new_col)"
| "op_in_range rows cols (Try_spawn agent_pos current_path spawn_prob u picks) =
     list_all (\<lambda>i. in_bounds rows cols (picks i)) [0..<20]"
| "op_in_range rows cols _ = True"

lemma apply_op_inv:
  assumes inv: "grid_inv g" and r: "op_in_range (grid_rows g) (grid_cols g) opn"
  shows "grid_inv (apply_op g opn) \<and> grid_rows (apply_op g opn) = grid_rows g
     \<and> grid_cols (apply_op g opn) = grid_cols g"
proof (cases opn)
  case (Toggle_obstacle row col)
  with toggle_obstacle_inv[OF inv, of row col] show ?thesis by (auto simp: same_frame_def)
next
  case (Place_obstacle row col)
  with place_obstacle_inv[OF inv, of row col] show ?thesis by (auto simp: same_frame_def)
next
  case (Generate_random d draws)
  with generate_random_inv[OF inv, of d draws] show ?thesis by (auto simp: same_frame_def)
next
  case Clear_obstacles
  with clear_obstacles_inv[OF inv] show ?thesis by (auto simp: same_frame_def)
next
  case (Move_start new_row new_col)
  with r have "grid_in_bounds g (new_row, new_col)" by (simp add: grid_in_bounds_def)
  from move_start_inv[OF inv this] Move_start show ?thesis by auto
next
  case (Move_goal new_row new_col)
  with r have "grid_in_bounds g (new_row, new_col)" by (simp add: grid_in_bounds_def)
  from move_goal_inv[OF inv this] Move_goal show ?thesis by auto
next
  case (Try_spawn agent_pos current_path spawn_prob u picks)
  with r have "\<forall>i<20. grid_in_bounds g (picks i)"
    by (simp add: grid_in_bounds_def list_all_iff)
  from try_spawn_inv[OF inv this, of agent_pos current_path spawn_prob u] Try_spawn
  show ?thesis by (auto simp: same_frame_def)
qed

lemma run_ops_inv:
  assumes "grid_inv g" and "list_all (op_in_range (grid_rows g) (grid_cols g)) ops"
  shows "grid_inv (run_ops g ops)"
  using assms unfolding run_ops_def
proof (induction ops arbitrary: g)
  case Nil
  then show ?case by simp
next
  case (Cons opn ops)
  from Cons.prems have r: "op_in_range (grid_rows g) (grid_cols g) opn" by simp
  from apply_op_inv[OF Cons.prems(1) r] Cons.prems(2) Cons.IH[of "apply_op g opn"]
  show ?case by simp
qed

lemma create_dims:
  assumes "create rows cols = Inr g"
  shows "1 \<le> rows \<and> 1 \<le> cols"
proof (rule ccontr)
  assume n: "\<not> (1 \<le> rows \<and> 1 \<le> cols)"
  show False
  proof (cases "1 \<le> rows")
    case False
    then have "make_empty_grid rows cols = []" by (simp add: make_empty_grid_def py_range_def)
    then show False using assms
      by (simp add: create_def Let_def write_cell_def cells_set_def py_index_def)
  next
    case True
    with n have c: "cols < 1" by simp
    from True have "nat rows > 0" by simp
    then have len: "length (make_empty_grid rows cols) > 0" by (simp add: make_empty_grid_def py_range_length)
    then have "make_empty_grid rows cols ! 0 \<in> set (make_empty_grid rows cols)" by simp
    then have "make_empty_grid rows cols ! 0 = []"
      using c by (auto simp: make_empty_grid_def py_range_def)
    then show False using assms len
      by (simp add: create_def Let_def write_cell_def cells_set_def py_index_def py_set_def)
  qed
qed


definition grid_1x1 :: grid_manager where
  "grid_1x1 = \<lparr>grid_rows = 1, grid_cols = 1, grid_start = (0, 0), grid_goal = (0, 0), grid_cells = [[GOAL]]\<rparr>"

lemmas grid_eval = create_def Let_def write_cell_def cells_set_def cells_get_def py_index_def py_set_def py_get_def
  make_empty_grid_def py_range_def upto.simps

definition grid_3x3 :: grid_manager where
  "grid_3x3 = \<lparr>grid_rows = 3, grid_cols = 3, grid_start = (0, 0), grid_goal = (2, 2),
     grid_cells = [[START, EMPTY, EMPTY], [EMPTY, EMPTY, EMPTY], [EMPTY, EMPTY, GOAL]]\<rparr>"

lemma generate_loop_const:
  assumes ok: "grid_ok g" and b: "\<forall>p \<in> set xs. grid_in_bounds g p"
    and d: "\<forall>k. (draws k < density) = hit"
  shows "\<exists>g' k'. for_each (generate_body density draws) xs (g, k) = (Inr (), (g', k'))
     \<and> grid_ok g' \<and> same_frame g g'
     \<and> (\<forall>r c. grid_in_bounds g (r, c) \<longrightarrow>
           get_cell g' r c =
             (if (r, c) \<in> set xs \<and> (r, c) \<noteq> grid_start g \<and> (r, c) \<noteq> grid_goal g
              then Inr (if hit then OBSTACLE else EMPTY) else get_cell g r c))"
  using ok b
proof (induction xs arbitrary: g k)
  case Nil
  then show ?case by (simp add: same_frame_refl)
next
  case (Cons p xs)
  let ?v = "if hit then OBSTACLE else EMPTY"
  obtain pr pc where p: "p = (pr, pc)" by (cases p)
  from Cons.prems p have bp: "grid_in_bounds g (pr, pc)" by simp
  have "\<exists>g1 k1. generate_body density draws p (g, k) = (Inr (), (g1, k1))
     \<and> grid_ok g1 \<and> same_frame g g1
     \<and> (\<forall>r c. grid_in_bounds g (r, c) \<longrightarrow>
           get_cell g1 r c =
             (if (r, c) = p \<and> (r, c) \<noteq> grid_start g \<and> (r, c) \<noteq> grid_goal g
              then Inr ?v else get_cell g r c))"
  proof (cases "p = grid_start g \<or> p = grid_goal g")
    case True
    then show ?thesis using Cons.prems(1) by (auto simp: generate_body_def same_frame_refl)
  next
    case False
    from write_cell_ok[OF Cons.prems(1) bp, of ?v] obtain g1 where
      "write_cell g pr pc ?v = (Inr (), g1)" "grid_ok g1" "same_frame g g1"
      "\<forall>r' c'. grid_in_bounds g (r', c') \<longrightarrow>
           get_cell g1 r' c' = (if (r', c') = (pr, pc) then Inr ?v else get_cell g r' c')"
      by blast
    then show ?thesis using False d p by (auto simp: generate_body_def)
  qed
  then obtain g1 k1 where
    s1: "generate_body density draws p (g, k) = (Inr (), (g1, k1))" and ok1: "grid_ok g1"
    and fr1: "same_frame g g1"
    and c1: "\<And>r c. grid_in_bounds g (r, c) \<Longrightarrow>
           get_cell g1 r c =
             (if (r, c) = p \<and> (r, c) \<noteq> grid_start g \<and> (r, c) \<noteq> grid_goal g
              then Inr ?v else get_cell g r c)"
    by blast
  have bb: "grid_in_bounds g1 q = grid_in_bounds g q" for q using fr1 by (rule same_frame_bounds)
  from Cons.prems have b1: "\<forall>p \<in> set xs. grid_in_bounds g1 p" by (simp add: bb)
  from Cons.IH[OF ok1 b1, of k1] obtain g' k' where
    s2: "for_each (generate_body density draws) xs (g1, k1) = (Inr (), (g', k'))"
    and ok': "grid_ok g'" and fr2: "same_frame g1 g'"
    and c2: "\<And>r c. grid_in_bounds g1 (r, c) \<Longrightarrow>
           get_cell g' r c =
             (if (r, c) \<in> set xs \<and> (r, c) \<noteq> grid_start g1 \<and> (r, c) \<noteq> grid_goal g1
              then Inr ?v else get_cell g1 r c)"
    by blast
  from fr1 have e: "grid_start g1 = grid_start g" "grid_goal g1 = grid_goal g"
    by (simp_all add: same_frame_def)
  have "get_cell g' r c =
             (if (r, c) \<in> set (p # xs) \<and> (r, c) \<noteq> grid_start g \<and> (r, c) \<noteq> grid_goal g
              then Inr ?v else get_cell g r c)" if "grid_in_bounds g (r, c)" for r c
    using c2[of r c] c1[OF that] that by (auto simp: bb e)
  moreover have "for_each (generate_body density draws) (p # xs) (g, k) = (Inr (), (g', k'))"
    using s1 s2 by simp
  ultimately show ?case using ok' same_frame_trans[OF fr1 fr2] by blast
qed

lemma generate_random_const:
  assumes ok: "grid_ok g" and d: "\<forall>k. (draws k < of_int density_percent / 100) = hit"
  shows "\<exists>g'. generate_random g density_percent draws = (Inr (), g')
     \<and> grid_ok g' \<and> same_frame g g'
     \<and> (\<forall>r c. grid_in_bounds g (r, c) \<longrightarrow>
           get_cell g' r c =
             (if (r, c) \<noteq> grid_start g \<and> (r, c) \<noteq> grid_goal g
              then Inr (if hit then OBSTACLE else EMPTY) else get_cell g r c))"
proof -
  have b: "\<forall>p \<in> set (all_cells g). grid_in_bounds g p" by (simp add: all_cells_set)
  from generate_loop_const[OF ok b d, of 0] obtain g' k' where
    "for_each (generate_body (of_int density_percent / 100) draws) (all_cells g) (g, 0) = (Inr (), (g', k'))"
    "grid_ok g'" "same_frame g g'"
    "\<forall>r c. grid_in_bounds g (r, c) \<longrightarrow>
           get_cell g' r c =
             (if (r, c) \<in> set (all_cells g) \<and> (r, c) \<noteq> grid_start g \<and> (r, c) \<noteq> grid_goal g
              then Inr (if hit then OBSTACLE else EMPTY) else get_cell g r c)"
    by blast
  then show ?thesis by (auto simp: generate_random_def all_cells_set)
qed


definition grid_2x2 :: grid_manager where
  "grid_2x2 = \<lparr>grid_rows = 2, grid_cols = 2, grid_start = (0, 0), grid_goal = (1, 1),
     grid_cells = [[START, OBSTACLE], [EMPTY, GOAL]]\<rparr>"

lemma grid_2x2_ok: "grid_ok grid_2x2"
  by (simp add: grid_ok_def grid_2x2_def dims_ok_def)

lemma in_bounds_2x2: "grid_in_bounds grid_2x2 (r, c) \<longleftrightarrow> 0 \<le> r \<and> r < 2 \<and> 0 \<le> c \<and> c < 2"
  by (simp add: grid_in_bounds_def in_bounds_def grid_2x2_def)

definition grid_fresh_2x2 :: grid_manager where
  "grid_fresh_2x2 = \<lparr>grid_rows = 2, grid_cols = 2, grid_start = (0, 0), grid_goal = (1, 1),
     grid_cells = [[START, EMPTY], [EMPTY, GOAL]]\<rparr>"

section \<open>Claims about the grid model\<close>

text \<open>
  C2 (invalid edits are rejected, never raised). \<open>toggle_obstacle\<close> rejects a protected or
  out-of-bounds cell through \<open>_is_safe_to_edit\<close>, but \<open>move_start\<close> and \<open>move_goal\<close> test only
  the other anchor. On the fresh 3 by 3 grid, \<open>move_start(5, 5)\<close> and \<open>move_goal(5, 5)\<close> raise
  IndexError, after the old anchor cell was cleared and the stored position changed; and
  \<open>move_start(-1, -1)\<close> raises nothing and writes START over the goal cell.
\<close>

theorem move_anchor_out_of_bounds_raises:
  "create 3 3 = Inr grid_3x3
   \<and> move_start grid_3x3 5 5
       = (Inl IndexError,
          grid_3x3\<lparr>grid_start := (5, 5),
            grid_cells := [[EMPTY, EMPTY, EMPTY], [EMPTY, EMPTY, EMPTY], [EMPTY, EMPTY, GOAL]]\<rparr>)
   \<and> move_goal grid_3x3 5 5
       = (Inl IndexError,
          grid_3x3\<lparr>grid_goal := (5, 5),
            grid_cells := [[START, EMPTY, EMPTY], [EMPTY, EMPTY, EMPTY], [EMPTY, EMPTY, EMPTY]]\<rparr>)
   \<and> move_start grid_3x3 (- 1) (- 1)
       = (Inr (Some (0, 0)),
          grid_3x3\<lparr>grid_start := (- 1, - 1),
            grid_cells := [[EMPTY, EMPTY, EMPTY], [EMPTY, EMPTY, EMPTY], [EMPTY, EMPTY, START]]\<rparr>)
   \<and> toggle_obstacle grid_3x3 5 5 = (Inr None, grid_3x3)
   \<and> toggle_obstacle grid_3x3 0 0 = (Inr None, grid_3x3)"
  by (simp add: grid_eval grid_3x3_def move_start_def move_goal_def toggle_obstacle_def
      is_safe_to_edit_def)

text \<open>
  C3 (\<open>try_spawn_dynamic_obstacle\<close>). On a grid whose cell lists have the stored dimensions
  and for picks in the range \<open>randint\<close> returns: when the draw \<open>u\<close> exceeds \<open>spawn_prob\<close> the
  call returns \<open>(None, False)\<close> and the grid is unchanged; otherwise the first of the 20
  picks that is not the start, not the goal, not \<open>agent_pos\<close> and not an obstacle cell is
  marked OBSTACLE and returned with the flag that says whether it is on \<open>remaining_path\<close>;
  and when all 20 picks are rejected the call returns \<open>(None, False)\<close> with the grid
  unchanged, the same outcome as the probability miss.
\<close>

theorem try_spawn_dynamic_obstacle_spec:
  assumes "grid_ok g" and "\<forall>i<20. grid_in_bounds g (picks i)"
  shows "(u > spawn_prob \<longrightarrow>
            try_spawn_dynamic_obstacle g agent_pos remaining_path spawn_prob u picks
              = (Inr (None, False), g))
       \<and> (\<forall>i<20. \<not> u > spawn_prob \<and> spawn_candidate g agent_pos (picks i)
              \<and> (\<forall>j<i. \<not> spawn_candidate g agent_pos (picks j)) \<longrightarrow>
            try_spawn_dynamic_obstacle g agent_pos remaining_path spawn_prob u picks
              = (Inr (Some (picks i), picks i \<in> set remaining_path), mark_obstacle g (picks i))
            \<and> get_cell (mark_obstacle g (picks i)) (fst (picks i)) (snd (picks i)) = Inr OBSTACLE)
       \<and> (\<not> u > spawn_prob \<and> (\<forall>i<20. \<not> spawn_candidate g agent_pos (picks i)) \<longrightarrow>
            try_spawn_dynamic_obstacle g agent_pos remaining_path spawn_prob u picks
              = (Inr (None, False), g))"
proof (intro conjI impI allI)
  assume "u > spawn_prob"
  then show "try_spawn_dynamic_obstacle g agent_pos remaining_path spawn_prob u picks
              = (Inr (None, False), g)"
    by (simp add: try_spawn_dynamic_obstacle_def)
next
  have b: "\<forall>i \<in> set [0..<20]. grid_in_bounds g (picks i)" using assms(2) by simp
  note loop = spawn_loop_find[OF assms(1) b, of agent_pos remaining_path]
  {
    fix i :: nat
    assume i: "i < 20" and h: "\<not> u > spawn_prob \<and> spawn_candidate g agent_pos (picks i)
              \<and> (\<forall>j<i. \<not> spawn_candidate g agent_pos (picks j))"
    then have "find (\<lambda>i. spawn_candidate g agent_pos (picks i)) [0..<20] = Some i"
      by (simp only: find_upt_Some) simp
    with h show "try_spawn_dynamic_obstacle g agent_pos remaining_path spawn_prob u picks
              = (Inr (Some (picks i), picks i \<in> set remaining_path), mark_obstacle g (picks i))"
      by (simp add: try_spawn_dynamic_obstacle_def loop)
    obtain r c where p: "picks i = (r, c)" by (cases "picks i")
    from assms(2) i p have bi: "grid_in_bounds g (r, c)" by auto
    from write_cell_ok[OF assms(1) bi, of OBSTACLE] write_cell_mark[OF assms(1) bi] bi
    show "get_cell (mark_obstacle g (picks i)) (fst (picks i)) (snd (picks i)) = Inr OBSTACLE"
      by (auto simp: p)
  }
  {
    assume h: "\<not> u > spawn_prob \<and> (\<forall>i<20. \<not> spawn_candidate g agent_pos (picks i))"
    then have "find (\<lambda>i. spawn_candidate g agent_pos (picks i)) [0..<20] = None"
      by (simp only: find_upt_None) simp
    with h show "try_spawn_dynamic_obstacle g agent_pos remaining_path spawn_prob u picks
              = (Inr (None, False), g)"
      by (simp add: try_spawn_dynamic_obstacle_def loop)
  }
qed

theorem try_spawn_dynamic_obstacle_spec_witness:
  "try_spawn_dynamic_obstacle grid_2x2 (0, 0) [(1, 0), (1, 1)] (1 / 2) (1 / 4)
      (\<lambda>i. if i = 0 then (0, 0) else if i = 1 then (0, 1) else (1, 0))
    = (Inr (Some (1, 0), True), grid_2x2\<lparr>grid_cells := [[START, OBSTACLE], [OBSTACLE, GOAL]]\<rparr>)"
proof -
  let ?picks = "\<lambda>i::nat. if i = 0 then (0, 0) else if i = 1 then (0, 1) else (1, 0::int)"
  have b: "\<forall>i<20. grid_in_bounds grid_2x2 (?picks i)" by (simp add: in_bounds_2x2)
  have e: "get_cell grid_2x2 0 1 = Inr OBSTACLE" "get_cell grid_2x2 1 0 = Inr EMPTY"
    by (simp_all add: get_cell_def grid_2x2_def cells_get_def py_get_def py_index_def)
  have s: "grid_start grid_2x2 = (0, 0)" "grid_goal grid_2x2 = (1, 1)" by (simp_all add: grid_2x2_def)
  have c: "\<not> spawn_candidate grid_2x2 (0, 0) (?picks 0)" "\<not> spawn_candidate grid_2x2 (0, 0) (?picks 1)"
    "spawn_candidate grid_2x2 (0, 0) (?picks 2)"
    by (simp_all add: spawn_candidate_def s e)
  have lt: "\<forall>j<2. \<not> spawn_candidate grid_2x2 (0, 0) (?picks j)"
    using c by (auto simp: less_Suc_eq numeral_2_eq_2)
  have m: "mark_obstacle grid_2x2 (1, 0) = grid_2x2\<lparr>grid_cells := [[START, OBSTACLE], [OBSTACLE, GOAL]]\<rparr>"
    by (simp add: mark_obstacle_def grid_2x2_def)
  note T = try_spawn_dynamic_obstacle_spec[OF grid_2x2_ok b, where u = "1 / 4" and spawn_prob = "1 / 2"
      and agent_pos = "(0, 0)" and remaining_path = "[(1, 0), (1, 1)]"]
  have u: "\<not> (1::rat) / 4 > 1 / 2" by simp
  have two: "(2::nat) < 20" by simp
  have pre: "\<not> (1::rat) / 4 > 1 / 2 \<and> spawn_candidate grid_2x2 (0, 0) (?picks 2)
      \<and> (\<forall>j<2. \<not> spawn_candidate grid_2x2 (0, 0) (?picks j))"
    using u c(3) lt by blast
  note R = T[THEN conjunct2, THEN conjunct1, rule_format, OF two pre]
  from R[THEN conjunct1] m show ?thesis by simp
qed

text \<open>
  C4 (exactly one Start and one Goal cell). As stated the claim fails on the 1 by 1 grid:
  the constructor puts start and goal on the same cell, which ends as GOAL, so the fresh
  grid holds no Start cell.
\<close>

theorem anchors_unique_counterexample:
  "create 1 1 = Inr grid_1x1 \<and> count_state (run_ops grid_1x1 []) START = 0"
  by (simp add: grid_eval grid_1x1_def count_state_def run_ops_def)

text \<open>
  C4, amended. For a grid created with more than one cell, and every sequence of the
  mutation operations in which each \<open>move_start\<close> and \<open>move_goal\<close> target is in bounds
  (and the spawn picks are in the range \<open>randint\<close> returns), the grid holds exactly one
  START cell and exactly one GOAL cell, at the stored start and goal coordinates.
\<close>

theorem anchors_unique_after_ops:
  assumes cr: "create rows cols = Inr g0" and two: "(rows, cols) \<noteq> (1, 1)"
    and ops: "list_all (op_in_range rows cols) ops"
  shows "count_state (run_ops g0 ops) START = 1
     \<and> count_state (run_ops g0 ops) GOAL = 1
     \<and> get_cell (run_ops g0 ops) (fst (grid_start (run_ops g0 ops))) (snd (grid_start (run_ops g0 ops))) = Inr START
     \<and> get_cell (run_ops g0 ops) (fst (grid_goal (run_ops g0 ops))) (snd (grid_goal (run_ops g0 ops))) = Inr GOAL"
proof -
  from create_dims[OF cr] have "1 \<le> rows" "1 \<le> cols" by simp_all
  from create_inv[OF this two] cr have inv0: "grid_inv g0" and d: "grid_rows g0 = rows" "grid_cols g0 = cols"
    by auto
  let ?g = "run_ops g0 ops"
  from run_ops_inv[OF inv0] ops d have inv: "grid_inv ?g" by simp
  then have ok: "grid_ok ?g" and a: "anchors_ok ?g" by (simp_all add: grid_inv_def)
  from a have bs: "grid_in_bounds ?g (grid_start ?g)" and bg: "grid_in_bounds ?g (grid_goal ?g)"
    by (simp_all add: anchors_ok_def)
  from a have cs: "get_cell ?g r c = Inr START \<longleftrightarrow> (r, c) = grid_start ?g"
    and cg: "get_cell ?g r c = Inr GOAL \<longleftrightarrow> (r, c) = grid_goal ?g"
    if "grid_in_bounds ?g (r, c)" for r c
    using that by (simp_all add: anchors_ok_def)
  have s: "get_cell ?g (fst (grid_start ?g)) (snd (grid_start ?g)) = Inr START"
    using cs[of "fst (grid_start ?g)" "snd (grid_start ?g)"] bs by simp
  have g: "get_cell ?g (fst (grid_goal ?g)) (snd (grid_goal ?g)) = Inr GOAL"
    using cg[of "fst (grid_goal ?g)" "snd (grid_goal ?g)"] bg by simp
  have "count_state ?g START = 1"
    by (rule count_state_unique[OF ok bs s]) (use cs in \<open>auto simp: prod_eq_iff\<close>)
  moreover have "count_state ?g GOAL = 1"
    by (rule count_state_unique[OF ok bg g]) (use cg in \<open>auto simp: prod_eq_iff\<close>)
  ultimately show ?thesis using s g by simp
qed

theorem anchors_unique_after_ops_witness:
  "count_state (run_ops grid_fresh_2x2
       [Move_start 0 1, Toggle_obstacle 0 0, Move_goal 1 0, Generate_random 50 (\<lambda>k. 1 / 4),
        Clear_obstacles, Place_obstacle 1 1]) START = 1
   \<and> count_state (run_ops grid_fresh_2x2
       [Move_start 0 1, Toggle_obstacle 0 0, Move_goal 1 0, Generate_random 50 (\<lambda>k. 1 / 4),
        Clear_obstacles, Place_obstacle 1 1]) GOAL = 1"
proof -
  have cr: "create 2 2 = Inr grid_fresh_2x2"
    by (simp add: grid_eval grid_fresh_2x2_def)
  have two: "(2::int, 2::int) \<noteq> (1, 1)" by simp
  have ops: "list_all (op_in_range 2 2)
       [Move_start 0 1, Toggle_obstacle 0 0, Move_goal 1 0, Generate_random 50 (\<lambda>k. 1 / 4),
        Clear_obstacles, Place_obstacle 1 1]"
    by (simp add: in_bounds_def)
  from anchors_unique_after_ops[OF cr two ops] show ?thesis by blast
qed

text \<open>
  C8 (\<open>generate_random\<close> at densities 0 and 100). The draws of \<open>random.random()\<close> lie in
  \<open>[0, 1)\<close>. \<open>generate_random(0)\<close> makes every cell other than the start and goal cells
  EMPTY and \<open>generate_random(100)\<close> makes each of them OBSTACLE; the start and goal cells and
  the stored positions are unchanged, and after \<open>generate_random(0)\<close> no cell is an obstacle
  (the start and goal cells held none).
\<close>

theorem generate_random_extremes:
  assumes ok: "grid_ok g"
    and d0: "\<forall>k. 0 \<le> draws0 k \<and> draws0 k < 1" and d100: "\<forall>k. 0 \<le> draws100 k \<and> draws100 k < 1"
  shows "\<exists>g0 g100. generate_random g 0 draws0 = (Inr (), g0)
     \<and> generate_random g 100 draws100 = (Inr (), g100)
     \<and> (\<forall>r c. grid_in_bounds g (r, c) \<longrightarrow>
           (if (r, c) = grid_start g \<or> (r, c) = grid_goal g
            then get_cell g0 r c = get_cell g r c \<and> get_cell g100 r c = get_cell g r c
            else get_cell g0 r c = Inr EMPTY \<and> get_cell g100 r c = Inr OBSTACLE))
     \<and> grid_start g0 = grid_start g \<and> grid_goal g0 = grid_goal g
     \<and> grid_start g100 = grid_start g \<and> grid_goal g100 = grid_goal g
     \<and> (get_cell g (fst (grid_start g)) (snd (grid_start g)) \<noteq> Inr OBSTACLE
        \<and> get_cell g (fst (grid_goal g)) (snd (grid_goal g)) \<noteq> Inr OBSTACLE
        \<longrightarrow> count_state g0 OBSTACLE = 0)"
proof -
  have h0: "\<forall>k. (draws0 k < of_int 0 / 100) = False" using d0 by (simp add: not_less)
  have h100: "\<forall>k. (draws100 k < of_int 100 / 100) = True" using d100 by simp
  from generate_random_const[OF ok h0] obtain g0 where
    r0: "generate_random g 0 draws0 = (Inr (), g0)" and ok0: "grid_ok g0" and fr0: "same_frame g g0"
    and c0: "\<And>r c. grid_in_bounds g (r, c) \<Longrightarrow>
           get_cell g0 r c =
             (if (r, c) \<noteq> grid_start g \<and> (r, c) \<noteq> grid_goal g
              then Inr EMPTY else get_cell g r c)"
    by auto
  from generate_random_const[OF ok h100] obtain g100 where
    r100: "generate_random g 100 draws100 = (Inr (), g100)" and fr100: "same_frame g g100"
    and c100: "\<And>r c. grid_in_bounds g (r, c) \<Longrightarrow>
           get_cell g100 r c =
             (if (r, c) \<noteq> grid_start g \<and> (r, c) \<noteq> grid_goal g
              then Inr OBSTACLE else get_cell g r c)"
    by auto
  have cnt: "count_state g0 OBSTACLE = 0"
    if a: "get_cell g (fst (grid_start g)) (snd (grid_start g)) \<noteq> Inr OBSTACLE"
          "get_cell g (fst (grid_goal g)) (snd (grid_goal g)) \<noteq> Inr OBSTACLE"
  proof (rule count_state_zero[OF ok0], intro allI impI)
    fix q assume "grid_in_bounds g0 q"
    then have bq: "grid_in_bounds g (fst q, snd q)" using same_frame_bounds[OF fr0] by simp
    from c0[OF bq] a show "get_cell g0 (fst q) (snd q) \<noteq> Inr OBSTACLE"
      by (cases "q = grid_start g \<or> q = grid_goal g") (auto simp: prod_eq_iff)
  qed
  have "(if (r, c) = grid_start g \<or> (r, c) = grid_goal g
            then get_cell g0 r c = get_cell g r c \<and> get_cell g100 r c = get_cell g r c
            else get_cell g0 r c = Inr EMPTY \<and> get_cell g100 r c = Inr OBSTACLE)"
    if "grid_in_bounds g (r, c)" for r c
    using c0[OF that] c100[OF that] by auto
  with r0 r100 fr0 fr100 cnt show ?thesis
    unfolding same_frame_def by blast
qed

theorem generate_random_extremes_witness:
  "\<exists>g0 g100. generate_random grid_2x2 0 (\<lambda>k. 1 / 2) = (Inr (), g0)
     \<and> generate_random grid_2x2 100 (\<lambda>k. 1 / 2) = (Inr (), g100)
     \<and> get_cell g0 0 1 = Inr EMPTY \<and> get_cell g100 1 0 = Inr OBSTACLE
     \<and> get_cell g0 0 0 = Inr START \<and> get_cell g100 1 1 = Inr GOAL
     \<and> count_state g0 OBSTACLE = 0"
proof -
  have d: "\<forall>k::nat. (0::rat) \<le> 1 / 2 \<and> (1::rat) / 2 < 1" by simp
  from generate_random_extremes[OF grid_2x2_ok d d] obtain g0 g100 where
    r: "generate_random grid_2x2 0 (\<lambda>k. 1 / 2) = (Inr (), g0)"
       "generate_random grid_2x2 100 (\<lambda>k. 1 / 2) = (Inr (), g100)"
    and c: "\<And>r c. grid_in_bounds grid_2x2 (r, c) \<Longrightarrow>
           (if (r, c) = grid_start grid_2x2 \<or> (r, c) = grid_goal grid_2x2
            then get_cell g0 r c = get_cell grid_2x2 r c \<and> get_cell g100 r c = get_cell grid_2x2 r c
            else get_cell g0 r c = Inr EMPTY \<and> get_cell g100 r c = Inr OBSTACLE)"
    and n: "get_cell grid_2x2 (fst (grid_start grid_2x2)) (snd (grid_start grid_2x2)) \<noteq> Inr OBSTACLE
        \<and> get_cell grid_2x2 (fst (grid_goal grid_2x2)) (snd (grid_goal grid_2x2)) \<noteq> Inr OBSTACLE
        \<longrightarrow> count_state g0 OBSTACLE = 0"
    by blast
  have e: "get_cell grid_2x2 0 0 = Inr START" "get_cell grid_2x2 1 1 = Inr GOAL"
    by (simp_all add: get_cell_def grid_2x2_def cells_get_def py_get_def py_index_def)
  have s: "grid_start grid_2x2 = (0, 0)" "grid_goal grid_2x2 = (1, 1)" by (simp_all add: grid_2x2_def)
  from c[of 0 1] have "get_cell g0 0 1 = Inr EMPTY" by (simp add: in_bounds_2x2 s)
  moreover from c[of 1 0] have "get_cell g100 1 0 = Inr OBSTACLE" by (simp add: in_bounds_2x2 s)
  moreover from c[of 0 0] e have "get_cell g0 0 0 = Inr START" by (simp add: in_bounds_2x2 s)
  moreover from c[of 1 1] e have "get_cell g100 1 1 = Inr GOAL" by (simp add: in_bounds_2x2 s)
  moreover from n e have "count_state g0 OBSTACLE = 0" by (simp add: s)
  ultimately show ?thesis using r by blast
qed


section \<open>Properties of the search loops\<close>

subsection \<open>Loop rules\<close>

lemma astar_loop_rule:
  assumes "I s"
    and "\<And>s s'. I s \<Longrightarrow> astar_step grid goal rows cols h s = Continue s' \<Longrightarrow> I s'"
    and "\<And>s r. I s \<Longrightarrow> astar_step grid goal rows cols h s = Return r \<Longrightarrow> P r"
  shows "P (astar_loop grid goal rows cols h s)"
  using assms
proof (induction grid goal rows cols h s rule: astar_loop.induct)
  case (1 grid goal rows cols h s)
  show ?case
  proof (cases "astar_step grid goal rows cols h s")
    case (Continue s')
    from "1.prems"(2)[OF "1.prems"(1) Continue] have "I s'" .
    from "1.IH"[OF Continue this "1.prems"(2,3)] Continue show ?thesis by simp
  next
    case (Return r)
    from "1.prems"(3)[OF "1.prems"(1) Return] Return show ?thesis by simp
  qed
qed

lemma greedy_loop_rule:
  assumes "I s"
    and "\<And>s s'. I s \<Longrightarrow> greedy_step grid goal rows cols h s = Continue s' \<Longrightarrow> I s'"
    and "\<And>s r. I s \<Longrightarrow> greedy_step grid goal rows cols h s = Return r \<Longrightarrow> P r"
  shows "P (greedy_loop grid goal rows cols h s)"
  using assms
proof (induction grid goal rows cols h s rule: greedy_loop.induct)
  case (1 grid goal rows cols h s)
  show ?case
  proof (cases "greedy_step grid goal rows cols h s")
    case (Continue s')
    from "1.prems"(2)[OF "1.prems"(1) Continue] have "I s'" .
    from "1.IH"[OF Continue this "1.prems"(2,3)] Continue show ?thesis by simp
  next
    case (Return r)
    from "1.prems"(3)[OF "1.prems"(1) Return] Return show ?thesis by simp
  qed
qed

subsection \<open>The cases of one pass\<close>

lemma astar_step_Continue:
  assumes "astar_step grid goal rows cols h s = Continue s'"
  obtains (stale) f g current open_list1 where
      "open_list s \<noteq> []" "heappop (open_list s) = ((f, g, current), open_list1)"
      "current \<in> closed_set s" "s' = s\<lparr>open_list := open_list1\<rparr>"
  | (expand) f g current open_list1 neighbors open_list2 came_from2 g_score2 where
      "open_list s \<noteq> []" "heappop (open_list s) = ((f, g, current), open_list1)"
      "current \<notin> closed_set s" "current \<noteq> goal"
      "get_neighbors grid (fst current) (snd current) rows cols = Inr neighbors"
      "astar_expand h goal current (insert current (closed_set s)) neighbors
         (open_list1, came_from s, g_score s) = Inr (open_list2, came_from2, g_score2)"
      "s' = \<lparr>open_list = open_list2, came_from = came_from2,
              visited_order = visited_order s @ [current],
              frontier_snapshots = frontier_snapshots s @ [heap_nodes open_list2],
              g_score = g_score2, closed_set = insert current (closed_set s)\<rparr>"
proof -
  from assms have ne: "open_list s \<noteq> []" by (auto simp: astar_step_def split: if_splits)
  obtain f g current open_list1 where
    pop: "heappop (open_list s) = ((f, g, current), open_list1)"
    by (metis surj_pair)
  show thesis
  proof (cases "current \<in> closed_set s")
    case True
    with assms ne pop have "s' = s\<lparr>open_list := open_list1\<rparr>"
      by (simp add: astar_step_def)
    with ne pop True show thesis by (rule stale)
  next
    case False
    with assms ne pop have ng: "current \<noteq> goal"
      by (auto simp: astar_step_def Let_def split: if_splits)
    with assms ne pop False obtain neighbors where
      nb: "get_neighbors grid (fst current) (snd current) rows cols = Inr neighbors"
      by (auto simp: astar_step_def Let_def split: if_splits sum.splits)
    with assms ne pop False ng obtain open_list2 came_from2 g_score2 where
      ex: "astar_expand h goal current (insert current (closed_set s)) neighbors
             (open_list1, came_from s, g_score s) = Inr (open_list2, came_from2, g_score2)"
      by (auto simp: astar_step_def Let_def split: if_splits sum.splits)
    from assms ne pop False ng nb ex have
      "s' = \<lparr>open_list = open_list2, came_from = came_from2,
              visited_order = visited_order s @ [current],
              frontier_snapshots = frontier_snapshots s @ [heap_nodes open_list2],
              g_score = g_score2, closed_set = insert current (closed_set s)\<rparr>"
      by (auto simp: astar_step_def Let_def heap_nodes_def)
    with ne pop False ng nb ex show thesis by (rule expand)
  qed
qed

lemma astar_step_Return:
  assumes "astar_step grid goal rows cols h s = Return r"
  obtains (empty) "open_list s = []" "r = Some (Inr (None, visited_order s, frontier_snapshots s))"
  | (found) f g open_list1 where
      "open_list s \<noteq> []" "heappop (open_list s) = ((f, g, goal), open_list1)"
      "goal \<notin> closed_set s"
      "r = finish (came_from s) goal (visited_order s @ [goal]) (frontier_snapshots s)"
  | (raised) e where "r = Some (Inl e)"
proof (cases "open_list s = []")
  case True
  with assms have "r = Some (Inr (None, visited_order s, frontier_snapshots s))"
    by (simp add: astar_step_def)
  with True show thesis by (rule empty)
next
  case ne: False
  obtain f g current open_list1 where
    pop: "heappop (open_list s) = ((f, g, current), open_list1)"
    by (metis surj_pair)
  from assms ne pop have nc: "current \<notin> closed_set s"
    by (auto simp: astar_step_def split: if_splits)
  show thesis
  proof (cases "current = goal")
    case True
    with assms ne pop nc have
      "r = finish (came_from s) goal (visited_order s @ [goal]) (frontier_snapshots s)"
      by (simp add: astar_step_def Let_def)
    with ne pop nc True show thesis by (auto intro: found)
  next
    case False
    with assms ne pop nc obtain e where "r = Some (Inl e)"
      by (auto simp: astar_step_def Let_def split: sum.splits prod.splits)
    then show thesis by (rule raised)
  qed
qed

lemma greedy_step_Continue:
  assumes "greedy_step grid goal rows cols h s = Continue s'"
  obtains priority current open_list1 neighbors open_list2 came_from2 where
      "open_list s \<noteq> []" "heappop (open_list s) = ((priority, current), open_list1)"
      "current \<noteq> goal"
      "get_neighbors grid (fst current) (snd current) rows cols = Inr neighbors"
      "greedy_expand h goal current neighbors (open_list1, came_from s) = (open_list2, came_from2)"
      "s' = \<lparr>open_list = open_list2, came_from = came_from2,
              visited_order = visited_order s @ [current],
              frontier_snapshots = frontier_snapshots s @ [snd ` set open_list2]\<rparr>"
proof -
  from assms have ne: "open_list s \<noteq> []" by (auto simp: greedy_step_def split: if_splits)
  obtain priority current open_list1 where
    pop: "heappop (open_list s) = ((priority, current), open_list1)"
    by (metis surj_pair)
  from assms ne pop have ng: "current \<noteq> goal"
    by (auto simp: greedy_step_def Let_def split: if_splits)
  with assms ne pop obtain neighbors where
    nb: "get_neighbors grid (fst current) (snd current) rows cols = Inr neighbors"
    by (auto simp: greedy_step_def Let_def split: if_splits sum.splits)
  obtain open_list2 came_from2 where
    ex: "greedy_expand h goal current neighbors (open_list1, came_from s) = (open_list2, came_from2)"
    by (metis surj_pair)
  from assms ne pop ng nb ex have
    "s' = \<lparr>open_list = open_list2, came_from = came_from2,
              visited_order = visited_order s @ [current],
              frontier_snapshots = frontier_snapshots s @ [snd ` set open_list2]\<rparr>"
    by (auto simp: greedy_step_def Let_def)
  with ne pop ng nb ex show thesis by (rule that)
qed

lemma greedy_step_Return:
  assumes "greedy_step grid goal rows cols h s = Return r"
  obtains (empty) "open_list s = []" "r = Some (Inr (None, visited_order s, frontier_snapshots s))"
  | (found) priority open_list1 where
      "open_list s \<noteq> []" "heappop (open_list s) = ((priority, goal), open_list1)"
      "r = finish (came_from s) goal (visited_order s @ [goal]) (frontier_snapshots s)"
  | (raised) e where "r = Some (Inl e)"
proof (cases "open_list s = []")
  case True
  with assms have "r = Some (Inr (None, visited_order s, frontier_snapshots s))"
    by (simp add: greedy_step_def)
  with True show thesis by (rule empty)
next
  case ne: False
  obtain priority current open_list1 where
    pop: "heappop (open_list s) = ((priority, current), open_list1)"
    by (metis surj_pair)
  show thesis
  proof (cases "current = goal")
    case True
    with assms ne pop have
      "r = finish (came_from s) goal (visited_order s @ [goal]) (frontier_snapshots s)"
      by (simp add: greedy_step_def Let_def)
    with ne pop True show thesis by (auto intro: found)
  next
    case False
    with assms ne pop obtain e where "r = Some (Inl e)"
      by (auto simp: greedy_step_def Let_def split: sum.splits prod.splits)
    then show thesis by (rule raised)
  qed
qed


lemma finish_Some:
  "finish cf goal vis fr = Some (Inr (p, vis', fr')) \<longleftrightarrow>
     (\<exists>path. reconstruct_path cf goal = Some (Inr path) \<and> p = Some path \<and> vis' = vis \<and> fr' = fr)"
  by (auto simp: finish_def split: option.splits sum.splits)

subsection \<open>No node is visited twice\<close>

lemma astar_loop_distinct:
  assumes "distinct (visited_order s)" "set (visited_order s) \<subseteq> closed_set s"
    and "astar_loop grid goal rows cols h s = Some (Inr (p, vis, fr))"
  shows "distinct vis"
proof -
  let ?I = "\<lambda>s::('a \<times> int \<times> coord) astar_state.
      distinct (visited_order s) \<and> set (visited_order s) \<subseteq> closed_set s"
  let ?P = "\<lambda>r. \<forall>p vis fr. r = Some (Inr (p, vis, fr)) \<longrightarrow> distinct vis"
  have "?P (astar_loop grid goal rows cols h s)"
  proof (rule astar_loop_rule[where I = ?I])
    show "?I s" using assms by simp
  next
    fix s s' :: "('a \<times> int \<times> coord) astar_state"
    assume I: "?I s" and st: "astar_step grid goal rows cols h s = Continue s'"
    from st show "?I s'"
    proof (cases rule: astar_step_Continue)
      case stale
      with I show ?thesis by simp
    next
      case expand
      with I show ?thesis by auto
    qed
  next
    fix s :: "('a \<times> int \<times> coord) astar_state" and r
    assume I: "?I s" and st: "astar_step grid goal rows cols h s = Return r"
    from st show "?P r"
    proof (cases rule: astar_step_Return)
      case empty
      with I show ?thesis by simp
    next
      case found
      with I show ?thesis by (auto simp: finish_Some)
    next
      case raised
      then show ?thesis by simp
    qed
  qed
  with assms(3) show ?thesis by simp
qed

lemma greedy_expand_spec:
  assumes "greedy_expand h goal current ns (ol, cf) = (ol', cf')"
  shows "\<exists>new. ol' = ol @ new \<and> distinct (map snd new)
     \<and> set (map snd new) = set ns - dom cf
     \<and> (\<forall>e \<in> set new. fst e = h (snd e) goal)
     \<and> (\<forall>n. cf' n = (if n \<in> set ns - dom cf then Some (Some current) else cf n))"
  using assms
proof (induction ns arbitrary: ol cf)
  case Nil
  then show ?case by simp
next
  case (Cons n ns)
  show ?case
  proof (cases "cf n = None")
    case False
    with Cons.prems have "greedy_expand h goal current ns (ol, cf) = (ol', cf')" by simp
    from Cons.IH[OF this] obtain new where new: "ol' = ol @ new" "distinct (map snd new)"
      "set (map snd new) = set ns - dom cf" "\<forall>e \<in> set new. fst e = h (snd e) goal"
      "\<forall>m. cf' m = (if m \<in> set ns - dom cf then Some (Some current) else cf m)"
      by blast
    from False have "set (n # ns) - dom cf = set ns - dom cf" by (auto simp: domIff)
    with new show ?thesis by auto
  next
    case True
    let ?cf = "cf(n \<mapsto> Some current)"
    from True Cons.prems have
      "greedy_expand h goal current ns (heappush ol (h n goal, n), ?cf) = (ol', cf')"
      by simp
    from Cons.IH[OF this] obtain new where new: "ol' = heappush ol (h n goal, n) @ new"
      "distinct (map snd new)"
      "set (map snd new) = set ns - dom ?cf" "\<forall>e \<in> set new. fst e = h (snd e) goal"
      "\<forall>m. cf' m = (if m \<in> set ns - dom ?cf then Some (Some current) else ?cf m)"
      by blast
    let ?new = "(h n goal, n) # new"
    have 1: "ol' = ol @ ?new" using new(1) by (simp add: heappush_def)
    have 2: "distinct (map snd ?new)" using new(2,3) by auto
    have 3: "set (map snd ?new) = set (n # ns) - dom cf" using new(3) True by (auto simp: domIff)
    have 4: "\<forall>e \<in> set ?new. fst e = h (snd e) goal" using new(4) by simp
    have 5: "\<forall>m. cf' m = (if m \<in> set (n # ns) - dom cf then Some (Some current) else cf m)"
      using new(5) True by (auto simp: domIff)
    from 1 2 3 4 5 show ?thesis by blast
  qed
qed

lemma remove1_map_snd:
  assumes "distinct (map snd xs)" "(p, n) \<in> set xs"
  shows "map snd (remove1 (p, n) xs) = remove1 n (map snd xs)"
  using assms
proof (induction xs)
  case Nil
  then show ?case by simp
next
  case (Cons x xs)
  show ?case
  proof (cases "x = (p, n)")
    case True
    then show ?thesis by simp
  next
    case False
    with Cons.prems have "(p, n) \<in> set xs" by simp
    moreover from this Cons.prems(1) have "snd x \<noteq> n" by (auto simp: image_iff)
    ultimately show ?thesis using Cons False by simp
  qed
qed

definition greedy_inv :: "('p \<times> coord) search_state \<Rightarrow> bool" where
  "greedy_inv s = (distinct (visited_order s @ map snd (open_list s))
     \<and> set (visited_order s) \<union> snd ` set (open_list s) \<subseteq> dom (came_from s))"

lemma greedy_inv_step:
  assumes I: "greedy_inv s" and st: "greedy_step grid goal rows cols h s = Continue s'"
  shows "greedy_inv s'"
  using st
proof (cases rule: greedy_step_Continue)
  case (1 priority current open_list1 neighbors open_list2 came_from2)
  from heappop_props[OF 1(1,2)] have mem: "(priority, current) \<in> set (open_list s)"
    and r: "open_list1 = remove1 (priority, current) (open_list s)" by simp_all
  from I have d: "distinct (map snd (open_list s))" by (simp add: greedy_inv_def)
  from remove1_map_snd[OF d mem] r
  have m1: "map snd open_list1 = remove1 current (map snd (open_list s))" by simp
  from mem have cm: "current \<in> set (map snd (open_list s))" by (force simp: image_iff)
  from greedy_expand_spec[OF 1(5)] obtain new where new: "open_list2 = open_list1 @ new"
    "distinct (map snd new)" "set (map snd new) = set neighbors - dom (came_from s)"
    "\<forall>n. came_from2 n = (if n \<in> set neighbors - dom (came_from s) then Some (Some current)
        else came_from s n)"
    by blast
  have "n \<in> dom came_from2 \<longleftrightarrow> n \<in> dom (came_from s) \<union> (set neighbors - dom (came_from s))"
    for n using new(4)[rule_format, of n] by (auto simp: domIff)
  then have dom2: "dom came_from2 = dom (came_from s) \<union> set (map snd new)"
    unfolding new(3) by blast
  let ?V = "set (visited_order s)" and ?H = "set (map snd (open_list s))"
  let ?H1 = "set (map snd open_list1)" and ?N = "set (map snd new)"
  let ?D = "dom (came_from s)"
  from I have dv: "distinct (visited_order s)" and VH: "?V \<inter> ?H = {}"
    and sub: "?V \<union> ?H \<subseteq> ?D"
    by (auto simp: greedy_inv_def)
  from d m1 have H1: "?H1 = ?H - {current}" and d1: "distinct (map snd open_list1)"
    by (simp_all add: set_remove1_eq)
  from new(3) have ND: "?N \<inter> ?D = {}" by auto
  have cV: "current \<notin> ?V" using VH cm by blast
  have a: "distinct (visited_order s @ [current])" using dv cV by simp
  have hn: "?H1 \<inter> ?N = {}" using H1 sub ND by blast
  have b: "distinct (map snd (open_list1 @ new))"
    unfolding map_append distinct_append by (intro conjI d1 new(2) hn)
  have c: "(?V \<union> {current}) \<inter> (?H1 \<union> ?N) = {}"
  proof -
    have "?V \<inter> ?H1 = {}" using VH H1 by blast
    moreover have "?V \<inter> ?N = {}" using sub ND by blast
    moreover have "current \<notin> ?H1" using H1 by blast
    moreover have "current \<notin> ?N" using cm sub ND by blast
    ultimately show ?thesis by blast
  qed
  have e: "(?V \<union> {current}) \<union> (?H1 \<union> ?N) \<subseteq> dom came_from2"
    using sub H1 cm dom2 by blast
  have sv: "set (visited_order s @ [current]) = ?V \<union> {current}" by simp
  have sh: "set (map snd (open_list1 @ new)) = ?H1 \<union> ?N" by simp
  have "distinct ((visited_order s @ [current]) @ map snd (open_list1 @ new))"
    unfolding distinct_append[of "visited_order s @ [current]"] sv sh
    by (intro conjI a b c)
  moreover have "set (visited_order s @ [current]) \<union> snd ` set (open_list1 @ new) \<subseteq> dom came_from2"
    using e by (auto simp: image_Un)
  ultimately have "greedy_inv \<lparr>open_list = open_list1 @ new, came_from = came_from2,
              visited_order = visited_order s @ [current],
              frontier_snapshots = frontier_snapshots s @ [snd ` set open_list2]\<rparr>"
    unfolding greedy_inv_def by simp
  with 1(6) new(1) show ?thesis by simp
qed

lemma greedy_loop_distinct:
  assumes "greedy_inv s"
    and "greedy_loop grid goal rows cols h s = Some (Inr (p, vis, fr))"
  shows "distinct vis"
proof -
  let ?P = "\<lambda>r. \<forall>p vis fr. r = Some (Inr (p, vis, fr)) \<longrightarrow> distinct vis"
  have "?P (greedy_loop grid goal rows cols h s)"
  proof (rule greedy_loop_rule[where I = greedy_inv])
    show "greedy_inv s" by fact
  next
    fix s s' :: "('a \<times> coord) search_state"
    assume "greedy_inv s" "greedy_step grid goal rows cols h s = Continue s'"
    then show "greedy_inv s'" by (rule greedy_inv_step)
  next
    fix s :: "('a \<times> coord) search_state" and r
    assume I: "greedy_inv s" and st: "greedy_step grid goal rows cols h s = Return r"
    from st show "?P r"
    proof (cases rule: greedy_step_Return)
      case empty
      with I show ?thesis by (simp add: greedy_inv_def)
    next
      case (found priority open_list1)
      from heappop_props(1)[OF found(1,2)] have "goal \<in> snd ` set (open_list s)"
        by (force simp: image_iff)
      moreover from I have "set (visited_order s) \<inter> snd ` set (open_list s) = {}"
        and dv: "distinct (visited_order s)" by (auto simp: greedy_inv_def)
      ultimately have "goal \<notin> set (visited_order s)" by blast
      with dv found(3) show ?thesis by (auto simp: finish_Some)
    next
      case raised
      then show ?thesis by simp
    qed
  qed
  with assms(2) show ?thesis by simp
qed


subsection \<open>The grid as a graph\<close>

definition walkable :: "cell_state list list \<Rightarrow> int \<Rightarrow> int \<Rightarrow> coord \<Rightarrow> bool" where
  "walkable grid rows cols n =
     (in_bounds rows cols n
      \<and> (case cells_get grid (fst n) (snd n) of Inl e \<Rightarrow> False | Inr v \<Rightarrow> v \<noteq> OBSTACLE))"

definition adjacent4 :: "coord \<Rightarrow> coord \<Rightarrow> bool" where
  "adjacent4 a b = ((fst b - fst a, snd b - snd a) \<in> set directions)"

definition grid_step :: "cell_state list list \<Rightarrow> int \<Rightarrow> int \<Rightarrow> coord \<Rightarrow> coord \<Rightarrow> bool" where
  "grid_step grid rows cols a b = (adjacent4 a b \<and> walkable grid rows cols b)"

definition path_between :: "cell_state list list \<Rightarrow> int \<Rightarrow> int \<Rightarrow> coord \<Rightarrow> coord \<Rightarrow> coord list \<Rightarrow> bool" where
  "path_between grid rows cols a b p =
     (p \<noteq> [] \<and> hd p = a \<and> last p = b \<and> successively (grid_step grid rows cols) p)"

lemma neighbors_loop_set:
  assumes "neighbors_loop grid row col rows cols ds acc = Inr ns"
  shows "set ns = set acc \<union> {m. (fst m - row, snd m - col) \<in> set ds \<and> walkable grid rows cols m}"
  using assms
proof (induction ds arbitrary: acc)
  case Nil
  then show ?case by simp
next
  case (Cons d ds)
  obtain dr dc where d: "d = (dr, dc)" by (cases d)
  let ?m = "(row + dr, col + dc)"
  have eq: "{m. (fst m - row, snd m - col) \<in> set (d # ds) \<and> walkable grid rows cols m}
      = (if walkable grid rows cols ?m then {?m} else {})
        \<union> {m. (fst m - row, snd m - col) \<in> set ds \<and> walkable grid rows cols m}"
  proof -
    have "(fst m - row, snd m - col) = d \<longleftrightarrow> m = ?m" for m :: coord
      using d by (cases m) auto
    then show ?thesis by auto
  qed
  show ?case
  proof (cases "0 \<le> row + dr \<and> row + dr < rows \<and> 0 \<le> col + dc \<and> col + dc < cols")
    case False
    then have "\<not> walkable grid rows cols ?m" by (auto simp: walkable_def in_bounds_def)
    moreover from Cons.prems False d have "neighbors_loop grid row col rows cols ds acc = Inr ns"
      by (simp add: Let_def)
    ultimately show ?thesis using Cons.IH eq by simp
  next
    case True
    from Cons.prems True d obtain v where v: "cells_get grid (row + dr) (col + dc) = Inr v"
      by (cases "cells_get grid (row + dr) (col + dc)") (simp_all add: Let_def)
    show ?thesis
    proof (cases "v = OBSTACLE")
      case o: True
      then have "\<not> walkable grid rows cols ?m" using v by (simp add: walkable_def)
      moreover from Cons.prems True d v o have "neighbors_loop grid row col rows cols ds acc = Inr ns"
        by (simp add: Let_def)
      ultimately show ?thesis using Cons.IH eq by simp
    next
      case o: False
      then have "walkable grid rows cols ?m" using v True by (simp add: walkable_def in_bounds_def)
      moreover from Cons.prems True d v o have
        "neighbors_loop grid row col rows cols ds (acc @ [?m]) = Inr ns"
        by (simp add: Let_def)
      ultimately show ?thesis using Cons.IH[of "acc @ [?m]"] eq by auto
    qed
  qed
qed

lemma get_neighbors_set:
  assumes "get_neighbors grid (fst n) (snd n) rows cols = Inr ns"
  shows "set ns = {m. grid_step grid rows cols n m}"
  using neighbors_loop_set[of grid "fst n" "snd n" rows cols directions "[]" ns] assms
  by (simp add: get_neighbors_def grid_step_def adjacent4_def)

lemma neighbors_loop_total:
  assumes "dims_ok grid rows cols"
  shows "\<exists>ns. neighbors_loop grid row col rows cols ds acc = Inr ns"
proof (induction ds arbitrary: acc)
  case Nil
  then show ?case by simp
next
  case (Cons d ds)
  obtain dr dc where d: "d = (dr, dc)" by (cases d)
  show ?case
  proof (cases "0 \<le> row + dr \<and> row + dr < rows \<and> 0 \<le> col + dc \<and> col + dc < cols")
    case False
    then have "neighbors_loop grid row col rows cols (d # ds) acc
        = neighbors_loop grid row col rows cols ds acc"
      unfolding d by (simp only: neighbors_loop.simps Let_def if_False)
    with Cons show ?thesis by simp
  next
    case True
    then have "in_bounds rows cols (row + dr, col + dc)" by (simp add: in_bounds_def)
    from cells_get_inb[OF assms this] obtain v where "cells_get grid (row + dr) (col + dc) = Inr v"
      by blast
    with True have "neighbors_loop grid row col rows cols (d # ds) acc
        = (if v \<noteq> OBSTACLE
           then neighbors_loop grid row col rows cols ds (acc @ [(row + dr, col + dc)])
           else neighbors_loop grid row col rows cols ds acc)"
      unfolding d by (simp add: Let_def)
    with Cons show ?thesis by simp
  qed
qed

lemma get_neighbors_total:
  "dims_ok grid rows cols \<Longrightarrow> \<exists>ns. get_neighbors grid row col rows cols = Inr ns"
  unfolding get_neighbors_def by (rule neighbors_loop_total)

lemma unit_step_abs:
  "(dx = - 1 \<and> dy = 0 \<or> dx = 1 \<and> dy = 0 \<or> dx = 0 \<and> dy = - 1 \<or> dx = 0 \<and> dy = 1)
     \<longleftrightarrow> \<bar>dx\<bar> + \<bar>dy\<bar> = (1::int)"
proof
  assume "dx = - 1 \<and> dy = 0 \<or> dx = 1 \<and> dy = 0 \<or> dx = 0 \<and> dy = - 1 \<or> dx = 0 \<and> dy = 1"
  then show "\<bar>dx\<bar> + \<bar>dy\<bar> = 1" by auto
next
  assume a: "\<bar>dx\<bar> + \<bar>dy\<bar> = 1"
  define p q where "p = \<bar>dx\<bar>" and "q = \<bar>dy\<bar>"
  have "0 \<le> p" "0 \<le> q" "p + q = 1" using a by (simp_all add: p_def q_def)
  then have "p = 0 \<and> q = 1 \<or> p = 1 \<and> q = 0" by presburger
  then have "dx = 0 \<and> \<bar>dy\<bar> = 1 \<or> \<bar>dx\<bar> = 1 \<and> dy = 0" by (simp add: p_def q_def)
  moreover have "\<bar>x\<bar> = 1 \<longleftrightarrow> x = 1 \<or> x = - 1" for x :: int by (simp add: abs_if)
  ultimately show "dx = - 1 \<and> dy = 0 \<or> dx = 1 \<and> dy = 0 \<or> dx = 0 \<and> dy = - 1 \<or> dx = 0 \<and> dy = 1"
    by blast
qed

lemma adjacent4_manhattan: "adjacent4 a b \<longleftrightarrow> manhattan_distance a b = 1"
proof -
  let ?dx = "fst b - fst a" and ?dy = "snd b - snd a"
  have "adjacent4 a b \<longleftrightarrow>
      (?dx = - 1 \<and> ?dy = 0 \<or> ?dx = 1 \<and> ?dy = 0 \<or> ?dx = 0 \<and> ?dy = - 1 \<or> ?dx = 0 \<and> ?dy = 1)"
    by (simp add: adjacent4_def directions_def)
  also have "\<dots> \<longleftrightarrow> \<bar>?dx\<bar> + \<bar>?dy\<bar> = 1" by (rule unit_step_abs)
  also have "\<bar>fst b - fst a\<bar> = \<bar>fst a - fst b\<bar>" by (rule abs_minus_commute)
  also have "\<bar>snd b - snd a\<bar> = \<bar>snd a - snd b\<bar>" by (rule abs_minus_commute)
  finally show ?thesis by (simp add: manhattan_distance_def)
qed

lemma abs_diff_triangle: "\<bar>x - z\<bar> \<le> \<bar>x - y\<bar> + \<bar>y - z\<bar>" for x y z :: int
  using abs_triangle_ineq[of "x - y" "y - z"] by simp

lemma manhattan_triangle:
  "manhattan_distance a c \<le> manhattan_distance a b + manhattan_distance b c"
proof -
  define p q r where "p = \<bar>fst a - fst c\<bar>" and "q = \<bar>fst a - fst b\<bar>" and "r = \<bar>fst b - fst c\<bar>"
  define s t u where "s = \<bar>snd a - snd c\<bar>" and "t = \<bar>snd a - snd b\<bar>" and "u = \<bar>snd b - snd c\<bar>"
  have "p \<le> q + r" "s \<le> t + u"
    unfolding p_def q_def r_def s_def t_def u_def by (rule abs_diff_triangle)+
  then have "p + s \<le> (q + t) + (r + u)" by linarith
  then show ?thesis
    unfolding manhattan_distance_def p_def q_def r_def s_def t_def u_def .
qed

lemma manhattan_sym: "manhattan_distance a b = manhattan_distance b a"
  unfolding manhattan_distance_def by (simp only: abs_minus_commute)

lemma path_manhattan:
  assumes "successively (grid_step grid rows cols) p" "p \<noteq> []"
  shows "manhattan_distance (hd p) (last p) \<le> int (length p) - 1"
  using assms
proof (induction p rule: induct_list012)
  case 1
  then show ?case by simp
next
  case (2 x)
  then show ?case by (simp add: manhattan_distance_def)
next
  case (3 x y zs)
  then have "manhattan_distance x y = 1" by (simp add: grid_step_def adjacent4_manhattan)
  moreover from 3 have "manhattan_distance y (last (y # zs)) \<le> int (length (y # zs)) - 1" by simp
  ultimately show ?case using manhattan_triangle[of x "last (y # zs)" y] by simp
qed




subsection \<open>Path reconstruction on a search tree\<close>

definition tree_ok :: "(coord \<Rightarrow> coord \<Rightarrow> bool) \<Rightarrow> coord \<Rightarrow> came_from_map \<Rightarrow> (coord \<Rightarrow> nat)
    \<Rightarrow> coord set \<Rightarrow> bool" where
  "tree_ok R start cf rank D =
     (\<forall>n \<in> D. (n = start \<and> cf n = Some None \<and> rank n = 0)
        \<or> (\<exists>p. cf n = Some (Some p) \<and> p \<in> D \<and> rank n = Suc (rank p) \<and> R p n))"

lemma reconstruct_loop_tree:
  assumes t: "tree_ok R start cf rank D" and n: "n \<in> D"
  shows "\<exists>ch. reconstruct_loop cf (Some n) acc = Some (Inr (rev (acc @ ch)))
     \<and> ch \<noteq> [] \<and> hd ch = n \<and> last ch = start
     \<and> successively (\<lambda>a b. R b a) ch
     \<and> map rank ch = rev [0..<Suc (rank n)]"
  using n
proof (induction k \<equiv> "rank n" arbitrary: n acc)
  case 0
  with t have "n = start" "cf n = Some None" by (auto simp: tree_ok_def)
  then have "reconstruct_loop cf (Some n) acc = reconstruct_loop cf None (acc @ [n])"
    by (subst reconstruct_loop.simps) simp
  also have "\<dots> = Some (Inr (rev (acc @ [n])))"
    by (subst reconstruct_loop.simps) simp
  finally have "reconstruct_loop cf (Some n) acc = Some (Inr (rev (acc @ [n])))" .
  with \<open>n = start\<close> 0 show ?case by (intro exI[of _ "[n]"]) simp
next
  case (Suc k)
  with t obtain p where p: "cf n = Some (Some p)" "p \<in> D" "rank n = Suc (rank p)" "R p n"
    by (auto simp: tree_ok_def)
  with Suc have k: "k = rank p" by simp
  from Suc.hyps(1)[OF k p(2), of "acc @ [n]"] obtain ch where
    ch: "reconstruct_loop cf (Some p) (acc @ [n]) = Some (Inr (rev ((acc @ [n]) @ ch)))"
      "ch \<noteq> []" "hd ch = p" "last ch = start" "successively (\<lambda>a b. R b a) ch"
      "map rank ch = rev [0..<Suc (rank p)]"
    by blast
  have "reconstruct_loop cf (Some n) acc = reconstruct_loop cf (Some p) (acc @ [n])"
    using p(1) by (subst reconstruct_loop.simps) simp
  with ch(1) have 1: "reconstruct_loop cf (Some n) acc = Some (Inr (rev (acc @ (n # ch))))" by simp
  have 2: "successively (\<lambda>a b. R b a) (n # ch)"
    using ch(2,3,5) p(4) by (cases ch) auto
  have 3: "map rank (n # ch) = rev [0..<Suc (rank n)]"
    using ch(6) p(3) by simp
  from 1 2 3 ch(2,4) show ?case by (intro exI[of _ "n # ch"]) simp
qed

lemma reconstruct_path_tree:
  assumes t: "tree_ok R start cf rank D" and n: "goal \<in> D"
  shows "\<exists>path. reconstruct_path cf goal = Some (Inr path)
     \<and> path \<noteq> [] \<and> hd path = start \<and> last path = goal
     \<and> successively R path \<and> distinct path \<and> length path = Suc (rank goal)"
proof -
  from reconstruct_loop_tree[OF t n, of "[]"] obtain ch where
    ch0: "reconstruct_loop cf (Some goal) [] = Some (Inr (rev ([] @ ch)))"
    and ch': "ch \<noteq> []" "hd ch = goal" "last ch = start" "successively (\<lambda>a b. R b a) ch"
      "map rank ch = rev [0..<Suc (rank goal)]"
    by blast
  from ch0 have "reconstruct_loop cf (Some goal) [] = Some (Inr (rev ch))"
    by (simp only: append_Nil)
  note ch = this ch'
  have "distinct (rev [0..<Suc (rank goal)])" by (simp only: distinct_rev distinct_upt)
  with ch(6) have "distinct (map rank ch)" by (simp only:)
  then have d: "distinct ch" by (simp add: distinct_map)
  from arg_cong[OF ch(6), of length] have l: "length ch = Suc (rank goal)"
    by (simp only: length_map length_rev length_upt diff_zero)
  have "reconstruct_path cf goal = Some (Inr (rev ch))"
    using ch(1) by (simp add: reconstruct_path_def)
  moreover have "rev ch \<noteq> []" using ch(2) by simp
  moreover have "hd (rev ch) = start" using ch(2,4) by (simp add: hd_rev)
  moreover have "last (rev ch) = goal" using ch(2,3) by (simp add: last_rev)
  moreover have "successively R (rev ch)" using ch(5) by simp
  moreover have "distinct (rev ch)" using d by simp
  moreover have "length (rev ch) = Suc (rank goal)" using l by simp
  ultimately show ?thesis by blast
qed


subsection \<open>The search tree of Greedy best-first search\<close>

definition greedy_tree :: "cell_state list list \<Rightarrow> int \<Rightarrow> int \<Rightarrow> coord
    \<Rightarrow> ('p \<times> coord) search_state \<Rightarrow> bool" where
  "greedy_tree grid rows cols start s =
     (snd ` set (open_list s) \<subseteq> dom (came_from s)
      \<and> (\<exists>rank. tree_ok (grid_step grid rows cols) start (came_from s) rank (dom (came_from s))))"

lemma greedy_tree_step:
  assumes I: "greedy_tree grid rows cols start s"
    and st: "greedy_step grid goal rows cols h s = Continue s'"
  shows "greedy_tree grid rows cols start s'"
  using st
proof (cases rule: greedy_step_Continue)
  case (1 priority current open_list1 neighbors open_list2 came_from2)
  let ?R = "grid_step grid rows cols"
  let ?D = "dom (came_from s)"
  from I obtain rank where sub: "snd ` set (open_list s) \<subseteq> ?D"
    and t: "tree_ok ?R start (came_from s) rank ?D"
    by (auto simp: greedy_tree_def)
  from heappop_props[OF 1(1,2)] have mem: "(priority, current) \<in> set (open_list s)"
    and st1: "set (open_list s) = insert (priority, current) (set open_list1)" by simp_all
  from mem sub have cD: "current \<in> ?D" by force
  from get_neighbors_set[OF 1(4)] have nb: "set neighbors = {m. ?R current m}" .
  from greedy_expand_spec[OF 1(5)] obtain new where new: "open_list2 = open_list1 @ new"
    "set (map snd new) = set neighbors - ?D"
    "\<forall>n. came_from2 n = (if n \<in> set neighbors - ?D then Some (Some current)
        else came_from s n)"
    by blast
  let ?N = "set neighbors - ?D"
  have "n \<in> dom came_from2 \<longleftrightarrow> n \<in> ?D \<union> ?N"
    for n using new(3)[rule_format, of n] by (auto simp: domIff)
  then have dom2: "dom came_from2 = ?D \<union> ?N" by blast
  define rank' where "rank' = (\<lambda>n. if n \<in> ?N then Suc (rank current) else rank n)"
  have "tree_ok ?R start came_from2 rank' (dom came_from2)"
    unfolding tree_ok_def
  proof
    fix n assume "n \<in> dom came_from2"
    with dom2 consider (fresh) "n \<in> ?N" | (old) "n \<in> ?D" "n \<notin> ?N" by blast
    then show "(n = start \<and> came_from2 n = Some None \<and> rank' n = 0)
        \<or> (\<exists>p. came_from2 n = Some (Some p) \<and> p \<in> dom came_from2 \<and> rank' n = Suc (rank' p) \<and> ?R p n)"
    proof cases
      case fresh
      then have "came_from2 n = Some (Some current)" using new(3)[rule_format, of n] by simp
      moreover have "current \<in> dom came_from2" using cD dom2 by blast
      moreover have "rank' n = Suc (rank' current)" using fresh cD by (simp add: rank'_def)
      moreover have "?R current n" using fresh nb by blast
      ultimately show ?thesis by blast
    next
      case old
      then have c: "came_from2 n = came_from s n" using new(3)[rule_format, of n] by simp
      from t old(1) have "(n = start \<and> came_from s n = Some None \<and> rank n = 0)
        \<or> (\<exists>p. came_from s n = Some (Some p) \<and> p \<in> ?D \<and> rank n = Suc (rank p) \<and> ?R p n)"
        by (simp add: tree_ok_def)
      then show ?thesis
      proof
        assume a: "n = start \<and> came_from s n = Some None \<and> rank n = 0"
        have "rank' n = rank n" using old by (simp add: rank'_def)
        from a have a1: "n = start" and a2: "came_from s n = Some None" and a3: "rank n = 0"
          by blast+
        from a2 c have "came_from2 n = Some None" by (simp only:)
        moreover from a3 \<open>rank' n = rank n\<close> have "rank' n = 0" by (simp only:)
        ultimately have "n = start \<and> came_from2 n = Some None \<and> rank' n = 0"
          using a1 by blast
        then show ?thesis by (rule disjI1)
      next
        assume "\<exists>p. came_from s n = Some (Some p) \<and> p \<in> ?D \<and> rank n = Suc (rank p) \<and> ?R p n"
        then obtain p where p: "came_from s n = Some (Some p)" "p \<in> ?D" "rank n = Suc (rank p)" "?R p n"
          by blast
        have "rank' n = rank n" "rank' p = rank p" using old p(2) by (simp_all add: rank'_def)
        with p(3) have r: "rank' n = Suc (rank' p)" by simp
        from p(1) c have e: "came_from2 n = Some (Some p)" by (simp only:)
        from p(2) dom2 have d: "p \<in> dom came_from2" by blast
        from e d r p(4) show ?thesis by (intro disjI2 exI[of _ p] conjI)
      qed
    qed
  qed
  moreover have "snd ` set open_list2 \<subseteq> dom came_from2"
  proof -
    from st1 sub have "snd ` set open_list1 \<subseteq> ?D" by auto
    moreover have "snd ` set new = ?N" using new(2) by simp
    ultimately show ?thesis unfolding new(1) dom2 by (auto simp: image_Un)
  qed
  ultimately show ?thesis using 1(6) by (auto simp: greedy_tree_def)
qed

lemma greedy_bfs_path:
  assumes "greedy_bfs grid start goal rows cols h = Some (Inr (Some path, vis, fr))"
  shows "path_between grid rows cols start goal path \<and> distinct path"
proof -
  let ?R = "grid_step grid rows cols"
  let ?P = "\<lambda>r. \<forall>path vis fr. r = Some (Inr (Some path, vis, fr)) \<longrightarrow>
      path_between grid rows cols start goal path \<and> distinct path"
  let ?s0 = "\<lparr>open_list = heappush [] (h start goal, start),
        came_from = [start \<mapsto> None], visited_order = [], frontier_snapshots = []\<rparr>"
  have "?P (greedy_loop grid goal rows cols h ?s0)"
  proof (rule greedy_loop_rule[where I = "greedy_tree grid rows cols start"])
    have "tree_ok ?R start [start \<mapsto> None] (\<lambda>_. 0) (dom [start \<mapsto> None])"
      by (simp add: tree_ok_def)
    then show "greedy_tree grid rows cols start ?s0"
      unfolding greedy_tree_def by (auto simp: heappush_def)
  next
    fix s s' :: "('a \<times> coord) search_state"
    assume "greedy_tree grid rows cols start s" "greedy_step grid goal rows cols h s = Continue s'"
    then show "greedy_tree grid rows cols start s'" by (rule greedy_tree_step)
  next
    fix s :: "('a \<times> coord) search_state" and r
    assume I: "greedy_tree grid rows cols start s" and st: "greedy_step grid goal rows cols h s = Return r"
    from st show "?P r"
    proof (cases rule: greedy_step_Return)
      case empty
      then show ?thesis by simp
    next
      case (found priority open_list1)
      from heappop_props(1)[OF found(1,2)] have gm: "goal \<in> snd ` set (open_list s)" by force
      from I obtain rank where sub: "snd ` set (open_list s) \<subseteq> dom (came_from s)"
        and t: "tree_ok ?R start (came_from s) rank (dom (came_from s))"
        unfolding greedy_tree_def by blast
      from gm sub have "goal \<in> dom (came_from s)" by blast
      from reconstruct_path_tree[OF t this] found(3) show ?thesis
        by (auto simp: finish_Some path_between_def)
    next
      case raised
      then show ?thesis by simp
    qed
  qed
  with assms show ?thesis by (simp add: greedy_bfs_def)
qed


subsection \<open>The invariant of A*\<close>

text \<open>
  \<open>walk R a b k\<close>: there is a sequence of \<open>k\<close> steps of \<open>R\<close> from \<open>a\<close> to \<open>b\<close>.
\<close>

definition walk :: "(coord \<Rightarrow> coord \<Rightarrow> bool) \<Rightarrow> coord \<Rightarrow> coord \<Rightarrow> nat \<Rightarrow> bool" where
  "walk R a b k = (\<exists>p. p \<noteq> [] \<and> hd p = a \<and> last p = b \<and> successively R p \<and> length p = Suc k)"

lemma walk_step:
  assumes "walk R a b k" "R b c"
  shows "walk R a c (Suc k)"
proof -
  from assms(1) obtain p where p: "p \<noteq> []" "hd p = a" "last p = b" "successively R p"
    "length p = Suc k" unfolding walk_def by blast
  from p assms(2) have "successively R (p @ [c])"
    by (simp add: successively_append_iff)
  with p show ?thesis unfolding walk_def
    by (intro exI[of _ "p @ [c]"]) simp
qed

text \<open>
  The neighbours for which the inner loop of \<open>astar\<close> takes the branch
  \<open>neighbor not in g_score or tentative_g < g_score[neighbor]\<close>, where \<open>gc\<close> is the g-score of
  the node being expanded and \<open>C\<close> the closed set.
\<close>

definition improved :: "coord set \<Rightarrow> g_score_map \<Rightarrow> int \<Rightarrow> coord list \<Rightarrow> coord set" where
  "improved C gs gc ns = {m \<in> set ns. m \<notin> C \<and> (\<forall>g. gs m = Some g \<longrightarrow> gc + 1 < g)}"

lemma astar_expand_spec:
  assumes "gs current = Some gc" "current \<in> C"
  shows "\<exists>ol' cf' gs'. astar_expand h goal current C ns (ol, cf, gs) = Inr (ol', cf', gs')
     \<and> set ol' = set ol \<union> (\<lambda>m. (of_int (gc + 1) + h m goal, gc + 1, m)) ` improved C gs gc ns
     \<and> (\<forall>m. gs' m = (if m \<in> improved C gs gc ns then Some (gc + 1) else gs m))
     \<and> (\<forall>m. cf' m = (if m \<in> improved C gs gc ns then Some (Some current) else cf m))"
  using assms(1)
proof (induction ns arbitrary: ol cf gs)
  case Nil
  then show ?case by (simp add: improved_def)
next
  case (Cons neighbor rest)
  show ?case
  proof (cases "neighbor \<in> C")
    case True
    then have "improved C gs gc (neighbor # rest) = improved C gs gc rest"
      by (auto simp: improved_def)
    with True Cons.IH[where gs = gs and ol = ol and cf = cf, OF Cons.prems] show ?thesis by simp
  next
    case False
    with assms(2) have ne: "neighbor \<noteq> current" by blast
    show ?thesis
    proof (cases "\<forall>g. gs neighbor = Some g \<longrightarrow> gc + 1 < g")
      case True
      let ?gs1 = "gs(neighbor \<mapsto> gc + 1)"
      let ?cf1 = "cf(neighbor \<mapsto> Some current)"
      let ?ol1 = "heappush ol (of_int (gc + 1) + h neighbor goal, gc + 1, neighbor)"
      from ne Cons.prems have c1: "?gs1 current = Some gc" by simp
      from True have cond: "(case gs neighbor of None \<Rightarrow> True | Some g_old \<Rightarrow> gc + 1 < g_old)"
        by (simp split: option.splits)
      have step: "astar_expand h goal current C (neighbor # rest) (ol, cf, gs)
          = astar_expand h goal current C rest (?ol1, ?cf1, ?gs1)"
        using False Cons.prems cond by (simp add: Let_def)
      have U1: "improved C ?gs1 gc rest = improved C gs gc rest - {neighbor}"
        by (auto simp: improved_def)
      have U: "improved C gs gc (neighbor # rest) = insert neighbor (improved C gs gc rest)"
        using True False by (auto simp: improved_def)
      from Cons.IH[where gs = ?gs1 and ol = ?ol1 and cf = ?cf1, OF c1] obtain ol' cf' gs' where
        r: "astar_expand h goal current C rest (?ol1, ?cf1, ?gs1) = Inr (ol', cf', gs')"
        and o: "set ol' = set ?ol1
            \<union> (\<lambda>m. (of_int (gc + 1) + h m goal, gc + 1, m)) ` improved C ?gs1 gc rest"
        and g: "\<forall>m. gs' m = (if m \<in> improved C ?gs1 gc rest then Some (gc + 1) else ?gs1 m)"
        and c: "\<forall>m. cf' m = (if m \<in> improved C ?gs1 gc rest then Some (Some current) else ?cf1 m)"
        by blast
      from o have o': "set ol' = set ol
          \<union> (\<lambda>m. (of_int (gc + 1) + h m goal, gc + 1, m)) ` improved C gs gc (neighbor # rest)"
        unfolding U U1 by (auto simp: heappush_def)
      from g have g': "\<forall>m. gs' m = (if m \<in> improved C gs gc (neighbor # rest) then Some (gc + 1) else gs m)"
        unfolding U U1 by auto
      from c have c': "\<forall>m. cf' m = (if m \<in> improved C gs gc (neighbor # rest) then Some (Some current) else cf m)"
        unfolding U U1 by auto
      from step r o' g' c' show ?thesis by simp
    next
      case no: False
      then obtain g where g: "gs neighbor = Some g" "\<not> gc + 1 < g" by blast
      have step: "astar_expand h goal current C (neighbor # rest) (ol, cf, gs)
          = astar_expand h goal current C rest (ol, cf, gs)"
        using False Cons.prems g by (simp add: Let_def)
      have U: "improved C gs gc (neighbor # rest) = improved C gs gc rest"
        using g by (auto simp: improved_def)
      from Cons.IH[where gs = gs and ol = ol and cf = cf, OF Cons.prems] show ?thesis unfolding step U .
    qed
  qed
qed

text \<open>
  A heuristic is consistent for the unit step cost when one step lowers it by at most 1.
\<close>

definition consistent :: "(coord \<Rightarrow> coord \<Rightarrow> bool) \<Rightarrow> (coord \<Rightarrow> coord \<Rightarrow> 'p::linordered_idom)
    \<Rightarrow> coord \<Rightarrow> bool" where
  "consistent R h goal = (\<forall>a b. R a b \<longrightarrow> h a goal \<le> h b goal + 1)"

lemma consistent_path:
  assumes "consistent R h goal"
  shows "successively R q \<Longrightarrow> q \<noteq> []
    \<Longrightarrow> h (hd q) goal \<le> h (last q) goal + of_nat (length q - 1)"
proof (induction q rule: induct_list012)
  case 1
  then show ?case by simp
next
  case (2 x)
  then show ?case by simp
next
  case (3 x y zs)
  from 3(3) have r: "R x y" and s: "successively R (y # zs)" by simp_all
  from assms r have "h x goal \<le> h y goal + 1" unfolding consistent_def by blast
  moreover from 3(2)[OF s] have "h y goal \<le> h (last (y # zs)) goal + of_nat (length zs)" by simp
  ultimately have "h x goal \<le> h (last (y # zs)) goal + of_nat (length zs) + 1" by linarith
  then show ?case by (simp add: algebra_simps)
qed


text \<open>
  The part of the invariant that holds for every heuristic: the g-scores are the depths of the
  nodes in the tree that \<open>came_from\<close> describes, the parents are closed nodes, and every node
  of the heap has a g-score.
\<close>

definition astar_tree :: "(coord \<Rightarrow> coord \<Rightarrow> bool) \<Rightarrow> coord \<Rightarrow> ('p \<times> int \<times> coord) astar_state \<Rightarrow> bool" where
  "astar_tree R start s =
     (g_score s start = Some 0
      \<and> (\<forall>n g. g_score s n = Some g \<longrightarrow> 0 \<le> g)
      \<and> tree_ok R start (came_from s) (\<lambda>n. nat (the (g_score s n))) (dom (g_score s))
      \<and> (\<forall>n p. n \<in> dom (g_score s) \<longrightarrow> came_from s n = Some (Some p) \<longrightarrow> p \<in> closed_set s)
      \<and> (\<forall>f g n. (f, g, n) \<in> set (open_list s) \<longrightarrow> n \<in> dom (g_score s)))"

lemma astar_tree_init:
  "astar_tree R start \<lparr>open_list = heappush [] (f0, 0, start), came_from = [start \<mapsto> None],
      visited_order = [], frontier_snapshots = [], g_score = [start \<mapsto> 0], closed_set = {}\<rparr>"
  by (simp add: astar_tree_def tree_ok_def heappush_def)

text \<open>What one expansion does to the state, in terms of the set of improved neighbours.\<close>

lemma astar_expand_state:
  assumes tr: "astar_tree (grid_step grid rows cols) start s"
    and ne: "open_list s \<noteq> []"
    and pop: "heappop (open_list s) = ((f, g, current), open_list1)"
    and nb: "get_neighbors grid (fst current) (snd current) rows cols = Inr neighbors"
  obtains gc U ol2 cf2 gs2 where
    "g_score s current = Some gc" "0 \<le> gc"
    "U = improved (insert current (closed_set s)) (g_score s) gc neighbors"
    "astar_expand h goal current (insert current (closed_set s)) neighbors
       (open_list1, came_from s, g_score s) = Inr (ol2, cf2, gs2)"
    "set ol2 = set open_list1 \<union> (\<lambda>m. (of_int (gc + 1) + h m goal, gc + 1, m)) ` U"
    "\<And>m. gs2 m = (if m \<in> U then Some (gc + 1) else g_score s m)"
    "\<And>m. cf2 m = (if m \<in> U then Some (Some current) else came_from s m)"
    "\<And>m. m \<in> U \<Longrightarrow> grid_step grid rows cols current m \<and> m \<notin> closed_set s \<and> m \<noteq> current
        \<and> m \<noteq> start"
    "\<And>m. grid_step grid rows cols current m \<Longrightarrow> m \<in> closed_set s \<or> m = current \<or> m \<in> U
        \<or> (\<exists>gm. g_score s m = Some gm \<and> gm \<le> gc + 1)"
    "\<And>m g'. m \<in> U \<Longrightarrow> g_score s m = Some g' \<Longrightarrow> gc + 1 < g'"
proof -
  from heappop_props(1)[OF ne pop] have "(f, g, current) \<in> set (open_list s)" by simp
  with tr obtain gc where gc: "g_score s current = Some gc" "0 \<le> gc"
    unfolding astar_tree_def by blast
  define U where "U = improved (insert current (closed_set s)) (g_score s) gc neighbors"
  from astar_expand_spec[where gs = "g_score s" and C = "insert current (closed_set s)"
      and h = h and goal = goal and ns = neighbors and ol = open_list1 and cf = "came_from s",
      OF gc(1) insertI1]
  obtain ol2 cf2 gs2 where
    ex: "astar_expand h goal current (insert current (closed_set s)) neighbors
       (open_list1, came_from s, g_score s) = Inr (ol2, cf2, gs2)"
    and o: "set ol2 = set open_list1 \<union> (\<lambda>m. (of_int (gc + 1) + h m goal, gc + 1, m)) ` U"
    and gs: "\<forall>m. gs2 m = (if m \<in> U then Some (gc + 1) else g_score s m)"
    and cf: "\<forall>m. cf2 m = (if m \<in> U then Some (Some current) else came_from s m)"
    unfolding U_def by blast
  from get_neighbors_set[OF nb] have ns: "set neighbors = {m. grid_step grid rows cols current m}" .
  from tr have s0: "g_score s start = Some 0" unfolding astar_tree_def by blast
  have u1: "grid_step grid rows cols current m \<and> m \<notin> closed_set s \<and> m \<noteq> current \<and> m \<noteq> start"
    if "m \<in> U" for m
  proof -
    from that ns have a: "grid_step grid rows cols current m" "m \<notin> closed_set s" "m \<noteq> current"
      and b: "\<forall>g. g_score s m = Some g \<longrightarrow> gc + 1 < g"
      unfolding U_def improved_def by auto
    from b s0 gc(2) have "m \<noteq> start" by auto
    with a show ?thesis by blast
  qed
  have u2: "m \<in> closed_set s \<or> m = current \<or> m \<in> U \<or> (\<exists>gm. g_score s m = Some gm \<and> gm \<le> gc + 1)"
    if "grid_step grid rows cols current m" for m
  proof -
    from that ns have "m \<in> set neighbors" by blast
    then show ?thesis unfolding U_def improved_def by (cases "g_score s m") auto
  qed
  have u3: "gc + 1 < g'" if "m \<in> U" "g_score s m = Some g'" for m g'
    using that unfolding U_def improved_def by simp
  from gc U_def ex o gs cf u1 u2 u3 show thesis by (intro that) blast+
qed

lemma astar_tree_step:
  assumes tr: "astar_tree (grid_step grid rows cols) start s"
    and st: "astar_step grid goal rows cols h s = Continue s'"
  shows "astar_tree (grid_step grid rows cols) start s'"
  using st
proof (cases rule: astar_step_Continue)
  case (stale f g current open_list1)
  from heappop_props(4)[OF stale(1,2)] have "set open_list1 \<subseteq> set (open_list s)" by blast
  with tr have "\<forall>f g n. (f, g, n) \<in> set open_list1 \<longrightarrow> n \<in> dom (g_score s)"
    unfolding astar_tree_def by blast
  with tr show ?thesis unfolding astar_tree_def stale(4) by simp
next
  case (expand f g current open_list1 neighbors open_list2 came_from2 g_score2)
  let ?R = "grid_step grid rows cols"
  from heappop_props(4)[OF expand(1,2)] have sub: "set open_list1 \<subseteq> set (open_list s)" by blast
  from tr have s0: "g_score s start = Some 0"
    and pos: "\<And>n g. g_score s n = Some g \<Longrightarrow> 0 \<le> g"
    and t: "tree_ok ?R start (came_from s) (\<lambda>n. nat (the (g_score s n))) (dom (g_score s))"
    and par: "\<And>n p. n \<in> dom (g_score s) \<Longrightarrow> came_from s n = Some (Some p) \<Longrightarrow> p \<in> closed_set s"
    and hp: "\<And>f g n. (f, g, n) \<in> set (open_list s) \<Longrightarrow> n \<in> dom (g_score s)"
    unfolding astar_tree_def by blast+
  obtain gc U ol2 cf2 gs2 where
    gc: "g_score s current = Some gc" "0 \<le> gc"
    and "U = improved (insert current (closed_set s)) (g_score s) gc neighbors"
    and ex: "astar_expand h goal current (insert current (closed_set s)) neighbors
       (open_list1, came_from s, g_score s) = Inr (ol2, cf2, gs2)"
    and o: "set ol2 = set open_list1 \<union> (\<lambda>m. (of_int (gc + 1) + h m goal, gc + 1, m)) ` U"
    and gs: "\<And>m. gs2 m = (if m \<in> U then Some (gc + 1) else g_score s m)"
    and cf: "\<And>m. cf2 m = (if m \<in> U then Some (Some current) else came_from s m)"
    and u1: "\<And>m. m \<in> U \<Longrightarrow> ?R current m \<and> m \<notin> closed_set s \<and> m \<noteq> current \<and> m \<noteq> start"
    and u2: "\<And>m. ?R current m \<Longrightarrow> m \<in> closed_set s \<or> m = current \<or> m \<in> U
        \<or> (\<exists>gm. g_score s m = Some gm \<and> gm \<le> gc + 1)"
    and u3: "\<And>m g'. m \<in> U \<Longrightarrow> g_score s m = Some g' \<Longrightarrow> gc + 1 < g'"
    by (rule astar_expand_state[where h = h and goal = goal, OF tr expand(1,2,5)]) (rule that)
  from ex expand(6) have eq: "open_list2 = ol2" "came_from2 = cf2" "g_score2 = gs2" by simp_all
  have c1: "gs2 start = Some 0" using gs[of start] u1[of start] s0 by auto
  have c2: "0 \<le> g'" if "gs2 n = Some g'" for n g'
    using that gs[of n] gc(2) pos[of n g'] by (auto split: if_splits)
  have cur2: "gs2 current = Some gc" using gs[of current] u1[of current] gc by auto
  have c3: "tree_ok ?R start cf2 (\<lambda>n. nat (the (gs2 n))) (dom gs2)"
    unfolding tree_ok_def
  proof
    fix n assume n: "n \<in> dom gs2"
    show "n = start \<and> cf2 n = Some None \<and> nat (the (gs2 n)) = 0
       \<or> (\<exists>p. cf2 n = Some (Some p) \<and> p \<in> dom gs2
              \<and> nat (the (gs2 n)) = Suc (nat (the (gs2 p))) \<and> ?R p n)"
    proof (cases "n \<in> U")
      case True
      with gs[of n] cf[of n] have "gs2 n = Some (gc + 1)" "cf2 n = Some (Some current)" by simp_all
      moreover from gc(2) have "nat (gc + 1) = Suc (nat gc)" by simp
      moreover from u1[OF True] have "?R current n" by blast
      ultimately have "cf2 n = Some (Some current) \<and> current \<in> dom gs2
              \<and> nat (the (gs2 n)) = Suc (nat (the (gs2 current))) \<and> ?R current n"
        using cur2 by auto
      then show ?thesis by blast
    next
      case False
      with gs[of n] cf[of n] have same: "gs2 n = g_score s n" "cf2 n = came_from s n" by simp_all
      with n have nd: "n \<in> dom (g_score s)" by (simp add: dom_def)
      from t[unfolded tree_ok_def, rule_format, OF nd]
      consider "n = start \<and> came_from s n = Some None \<and> nat (the (g_score s n)) = 0"
        | p where "came_from s n = Some (Some p)" "p \<in> dom (g_score s)"
            "nat (the (g_score s n)) = Suc (nat (the (g_score s p)))" "?R p n"
        by blast
      then show ?thesis
      proof cases
        case 1
        with same have "n = start \<and> cf2 n = Some None \<and> nat (the (gs2 n)) = 0" by auto
        then show ?thesis by (rule disjI1)
      next
        case 2
        from par[OF nd 2(1)] u1[of p] have "p \<notin> U" by blast
        with gs[of p] have "gs2 p = g_score s p" by simp
        with 2 same have "cf2 n = Some (Some p) \<and> p \<in> dom gs2
              \<and> nat (the (gs2 n)) = Suc (nat (the (gs2 p))) \<and> ?R p n" by auto
        then show ?thesis by blast
      qed
    qed
  qed
  have c4: "p \<in> insert current (closed_set s)" if "n \<in> dom gs2" "cf2 n = Some (Some p)" for n p
  proof (cases "n \<in> U")
    case True
    with cf[of n] that show ?thesis by simp
  next
    case False
    with gs[of n] cf[of n] that have "n \<in> dom (g_score s)" "came_from s n = Some (Some p)"
      by (simp_all add: dom_def)
    from par[OF this] show ?thesis by simp
  qed
  have c5: "n \<in> dom gs2" if "(f', g', n) \<in> set ol2" for f' g' n
  proof -
    from that o consider "(f', g', n) \<in> set open_list1" | "n \<in> U" by auto
    then show ?thesis
    proof cases
      case 1
      with sub hp have "n \<in> dom (g_score s)" by blast
      with gs[of n] show ?thesis by auto
    next
      case 2
      with gs[of n] show ?thesis by auto
    qed
  qed
  show ?thesis unfolding astar_tree_def expand(7) eq
    using c1 c2 c3 c4 c5 by simp
qed


lemma astar_tree_walk:
  assumes "astar_tree R start s" "g_score s n = Some g"
  shows "walk R start n (nat g)"
proof -
  from assms(1) have t: "tree_ok R start (came_from s) (\<lambda>n. nat (the (g_score s n))) (dom (g_score s))"
    unfolding astar_tree_def by blast
  from assms(2) have "n \<in> dom (g_score s)" by (simp add: dom_def)
  from reconstruct_path_tree[OF t this] assms(2) show ?thesis
    unfolding walk_def by auto
qed

lemma astar_path_result:
  assumes "astar grid start goal rows cols h = Some (Inr (Some path, vis, fr))"
  shows "path_between grid rows cols start goal path \<and> distinct path"
proof -
  let ?R = "grid_step grid rows cols"
  let ?P = "\<lambda>r. \<forall>path vis fr. r = Some (Inr (Some path, vis, fr)) \<longrightarrow>
      path_between grid rows cols start goal path \<and> distinct path"
  let ?s0 = "\<lparr>open_list = heappush [] (h start goal, 0, start), came_from = [start \<mapsto> None],
      visited_order = [], frontier_snapshots = [], g_score = [start \<mapsto> 0], closed_set = {}\<rparr>"
  have "?P (astar_loop grid goal rows cols h ?s0)"
  proof (rule astar_loop_rule[where I = "astar_tree ?R start"])
    show "astar_tree ?R start ?s0" by (rule astar_tree_init)
  next
    fix s s' :: "('a \<times> int \<times> coord) astar_state"
    assume "astar_tree ?R start s" "astar_step grid goal rows cols h s = Continue s'"
    then show "astar_tree ?R start s'" by (rule astar_tree_step)
  next
    fix s :: "('a \<times> int \<times> coord) astar_state" and r
    assume I: "astar_tree ?R start s" and st: "astar_step grid goal rows cols h s = Return r"
    from st show "?P r"
    proof (cases rule: astar_step_Return)
      case empty
      then show ?thesis by simp
    next
      case (found f g open_list1)
      from heappop_props(1)[OF found(1,2)] have "(f, g, goal) \<in> set (open_list s)" by simp
      with I have gd: "goal \<in> dom (g_score s)" unfolding astar_tree_def by blast
      from I have t: "tree_ok ?R start (came_from s) (\<lambda>n. nat (the (g_score s n))) (dom (g_score s))"
        unfolding astar_tree_def by blast
      from reconstruct_path_tree[OF t gd] found(4) show ?thesis
        by (auto simp: finish_Some path_between_def)
    next
      case raised
      then show ?thesis by simp
    qed
  qed
  with assms show ?thesis by (simp add: astar_def)
qed

lemma successively_take: "successively R p \<Longrightarrow> successively R (take n p)"
  using successively_append_iff[of R "take n p" "drop n p"] by simp

lemma successively_drop: "successively R p \<Longrightarrow> successively R (drop n p)"
  using successively_append_iff[of R "take n p" "drop n p"] by simp

lemma walk_prefix:
  assumes "successively R p" "i < length p"
  shows "walk R (hd p) (p ! i) i"
proof -
  from assms(2) have ne: "take (Suc i) p \<noteq> []" by auto
  from assms(2) have "take (Suc i) p = take i p @ [p ! i]" by (rule take_Suc_conv_app_nth)
  then have l: "last (take (Suc i) p) = p ! i" by simp
  from assms(2) have h: "hd (take (Suc i) p) = hd p" by (cases p) auto
  from assms(2) have n: "length (take (Suc i) p) = Suc i" by simp
  from ne h l successively_take[OF assms(1)] n show ?thesis unfolding walk_def by blast
qed

text \<open>
  The part of the invariant that needs a consistent heuristic: every heap entry carries its
  f-score and a g-value no smaller than the recorded g-score, every open node has its current
  entry in the heap, and a closed node has its shortest distance as g-score and all its
  neighbours discovered within one more step.
\<close>

definition astar_opt :: "(coord \<Rightarrow> coord \<Rightarrow> bool) \<Rightarrow> (coord \<Rightarrow> coord \<Rightarrow> 'p::linordered_idom)
    \<Rightarrow> coord \<Rightarrow> coord \<Rightarrow> ('p \<times> int \<times> coord) astar_state \<Rightarrow> bool" where
  "astar_opt R h goal start s =
     ((\<forall>f g n. (f, g, n) \<in> set (open_list s)
         \<longrightarrow> f = of_int g + h n goal \<and> (\<exists>g'. g_score s n = Some g' \<and> g' \<le> g))
      \<and> (\<forall>n g. g_score s n = Some g
         \<longrightarrow> n \<in> closed_set s \<or> (of_int g + h n goal, g, n) \<in> set (open_list s))
      \<and> (\<forall>n. n \<in> closed_set s \<longrightarrow> (\<exists>g. g_score s n = Some g
           \<and> (\<forall>k. walk R start n k \<longrightarrow> nat g \<le> k)
           \<and> (\<forall>m. R n m \<longrightarrow> (\<exists>gm. g_score s m = Some gm \<and> gm \<le> g + 1))))
      \<and> goal \<notin> closed_set s)"

lemma first_open:
  assumes s0: "gs start = Some (0::int)"
    and cl: "\<And>n. n \<in> C \<Longrightarrow> \<exists>g. gs n = Some g
           \<and> (\<forall>k. walk R start n k \<longrightarrow> nat g \<le> k)
           \<and> (\<forall>m. R n m \<longrightarrow> (\<exists>gm. gs m = Some gm \<and> gm \<le> g + 1))"
    and p: "p \<noteq> []" "hd p = start" "successively R p" "last p \<notin> C"
  shows "\<exists>i gi. i < length p \<and> p ! i \<notin> C \<and> gs (p ! i) = Some gi \<and> gi \<le> int i"
proof -
  define Q where "Q i = (i < length p \<and> p ! i \<notin> C)" for i
  define i where "i = (LEAST i. Q i)"
  from p(1,4) have "Q (length p - 1)" unfolding Q_def by (simp add: last_conv_nth)
  then have "Q i" unfolding i_def by (rule LeastI)
  then have i: "i < length p" "p ! i \<notin> C" unfolding Q_def by simp_all
  have least: "p ! j \<in> C" if "j < i" for j
  proof -
    from that have "\<not> Q j" unfolding i_def by (rule not_less_Least)
    with that i(1) show ?thesis unfolding Q_def by simp
  qed
  show ?thesis
  proof (cases i)
    case 0
    with p(1,2) have "p ! i = start" by (simp add: hd_conv_nth)
    with s0 i 0 show ?thesis by auto
  next
    case (Suc j)
    then have ji: "j < i" by simp
    with i(1) have jl: "j < length p" by simp
    from cl[OF least[OF ji]] obtain gj where
      gj: "gs (p ! j) = Some gj" "\<forall>k. walk R start (p ! j) k \<longrightarrow> nat gj \<le> k"
      "\<forall>m. R (p ! j) m \<longrightarrow> (\<exists>gm. gs m = Some gm \<and> gm \<le> gj + 1)" by blast
    from walk_prefix[OF p(3) jl] p(2) have "walk R start (p ! j) j" by simp
    with gj(2) have a: "nat gj \<le> j" by blast
    from successively_nth[OF p(3)] i(1) Suc have "R (p ! j) (p ! i)" by simp
    with gj(3) obtain gm where gm: "gs (p ! i) = Some gm" "gm \<le> gj + 1" by blast
    from a gm(2) Suc have "gm \<le> int i" by simp
    with i gm(1) show ?thesis by blast
  qed
qed

lemma astar_pop_optimal:
  fixes h :: "coord \<Rightarrow> coord \<Rightarrow> 'p::linordered_idom"
  assumes tr: "astar_tree R start s" and op: "astar_opt R h goal start s"
    and co: "consistent R h goal"
    and ne: "open_list s \<noteq> []"
    and pop: "heappop (open_list s) = ((f, g, current), open_list1)"
    and nc: "current \<notin> closed_set s"
  shows "g_score s current = Some g \<and> (\<forall>k. walk R start current k \<longrightarrow> nat g \<le> k)"
proof -
  from heappop_props(1)[OF ne pop] have mem: "(f, g, current) \<in> set (open_list s)" by simp
  from heappop_props(2)[OF ne pop] have least: "\<And>x. x \<in> set (open_list s) \<Longrightarrow> (f, g, current) \<le> x"
    by simp
  from op mem obtain g' where f: "f = of_int g + h current goal"
    and g': "g_score s current = Some g'" "g' \<le> g"
    unfolding astar_opt_def by blast
  from tr have s0: "g_score s start = Some 0" and pos: "\<And>n g. g_score s n = Some g \<Longrightarrow> 0 \<le> g"
    unfolding astar_tree_def by blast+
  from op have cl: "\<And>n. n \<in> closed_set s \<Longrightarrow> \<exists>g. g_score s n = Some g
           \<and> (\<forall>k. walk R start n k \<longrightarrow> nat g \<le> k)
           \<and> (\<forall>m. R n m \<longrightarrow> (\<exists>gm. g_score s m = Some gm \<and> gm \<le> g + 1))"
    unfolding astar_opt_def by blast
  from op have hp: "\<And>n g. g_score s n = Some g \<Longrightarrow> n \<notin> closed_set s
      \<Longrightarrow> (of_int g + h n goal, g, n) \<in> set (open_list s)"
    unfolding astar_opt_def by blast
  have key: "g \<le> int k" if "walk R start current k" for k
  proof -
    from that obtain p where p: "p \<noteq> []" "hd p = start" "last p = current" "successively R p"
      "length p = Suc k" unfolding walk_def by blast
    from p(3) nc have "last p \<notin> closed_set s" by simp
    from first_open[of "g_score s", OF s0 cl p(1,2,4) this] obtain i gi where
      i: "i < length p" "p ! i \<notin> closed_set s" "g_score s (p ! i) = Some gi" "gi \<le> int i"
      by blast
    define hv where "hv = h (p ! i) goal"
    define hc where "hc = h current goal"
    from hp[OF i(3,2)] have "(of_int gi + hv, gi, p ! i) \<in> set (open_list s)" unfolding hv_def .
    from least[OF this] have "f \<le> of_int gi + hv" by (auto simp: less_eq_prod_def)
    with f have a: "of_int g + hc \<le> of_int gi + hv" unfolding hc_def by simp
    from i(1) have dne: "drop i p \<noteq> []" by simp
    from i(1) have "hd (drop i p) = p ! i" by (rule hd_drop_conv_nth)
    moreover from i(1) p(3) have "last (drop i p) = current" by simp
    moreover from i(1) p(5) have "length (drop i p) - 1 = k - i" by simp
    ultimately have b: "hv \<le> hc + of_nat (k - i)"
      using consistent_path[OF co successively_drop[OF p(4)] dne] unfolding hv_def hc_def
      by simp
    from i(4) have "(of_int gi :: 'p) \<le> of_int (int i)" by (simp only: of_int_le_iff)
    then have c: "(of_int gi :: 'p) \<le> of_nat i" by simp
    from a b c have "(of_int g :: 'p) \<le> of_nat i + of_nat (k - i)" by linarith
    also from i(1) p(5) have "(of_nat i + of_nat (k - i) :: 'p) = of_nat k"
      by (simp add: of_nat_add[symmetric] del: of_nat_add)
    finally have "(of_int g :: 'p) \<le> of_int (int k)" by simp
    then show ?thesis by (simp only: of_int_le_iff)
  qed
  from key[OF astar_tree_walk[OF tr g'(1)]] pos[OF g'(1)] g'(2) have "g' = g" by simp
  with g'(1) key show ?thesis by (auto simp: nat_le_iff)
qed


lemma astar_opt_init:
  "astar_opt R h goal start \<lparr>open_list = heappush [] (h start goal, 0, start),
      came_from = [start \<mapsto> None], visited_order = [], frontier_snapshots = [],
      g_score = [start \<mapsto> 0], closed_set = {}\<rparr>"
  by (simp add: astar_opt_def heappush_def)

lemma astar_opt_step:
  fixes h :: "coord \<Rightarrow> coord \<Rightarrow> 'p::linordered_idom"
  assumes tr: "astar_tree (grid_step grid rows cols) start s"
    and op: "astar_opt (grid_step grid rows cols) h goal start s"
    and co: "consistent (grid_step grid rows cols) h goal"
    and st: "astar_step grid goal rows cols h s = Continue s'"
  shows "astar_opt (grid_step grid rows cols) h goal start s'"
  using st
proof (cases rule: astar_step_Continue)
  case (stale f g current open_list1)
  from heappop_props(4)[OF stale(1,2)]
  have o: "set (open_list s) = insert (f, g, current) (set open_list1)" .
  from op have i1: "\<And>f g n. (f, g, n) \<in> set (open_list s)
         \<Longrightarrow> f = of_int g + h n goal \<and> (\<exists>g'. g_score s n = Some g' \<and> g' \<le> g)"
    and i2: "\<And>n g. g_score s n = Some g
         \<Longrightarrow> n \<in> closed_set s \<or> (of_int g + h n goal, g, n) \<in> set (open_list s)"
    unfolding astar_opt_def by blast+
  have c1: "f' = of_int g' + h n goal \<and> (\<exists>g''. g_score s n = Some g'' \<and> g'' \<le> g')"
    if "(f', g', n) \<in> set open_list1" for f' g' n
    using that o i1[of f' g' n] by blast
  have c2: "n \<in> closed_set s \<or> (of_int g' + h n goal, g', n) \<in> set open_list1"
    if "g_score s n = Some g'" for n g'
    using i2[OF that] o stale(3) by auto
  from op c1 c2 show ?thesis unfolding astar_opt_def stale(4) by simp
next
  case (expand f g current open_list1 neighbors open_list2 came_from2 g_score2)
  let ?R = "grid_step grid rows cols"
  from heappop_props(4)[OF expand(1,2)]
  have os: "set (open_list s) = insert (f, g, current) (set open_list1)" .
  from op have i1: "\<And>f g n. (f, g, n) \<in> set (open_list s)
         \<Longrightarrow> f = of_int g + h n goal \<and> (\<exists>g'. g_score s n = Some g' \<and> g' \<le> g)"
    and i2: "\<And>n g. g_score s n = Some g
         \<Longrightarrow> n \<in> closed_set s \<or> (of_int g + h n goal, g, n) \<in> set (open_list s)"
    and i3: "\<And>n. n \<in> closed_set s \<Longrightarrow> \<exists>g. g_score s n = Some g
           \<and> (\<forall>k. walk ?R start n k \<longrightarrow> nat g \<le> k)
           \<and> (\<forall>m. ?R n m \<longrightarrow> (\<exists>gm. g_score s m = Some gm \<and> gm \<le> g + 1))"
    unfolding astar_opt_def by blast+
  obtain gc U ol2 cf2 gs2 where
    gc: "g_score s current = Some gc" "0 \<le> gc"
    and "U = improved (insert current (closed_set s)) (g_score s) gc neighbors"
    and ex: "astar_expand h goal current (insert current (closed_set s)) neighbors
       (open_list1, came_from s, g_score s) = Inr (ol2, cf2, gs2)"
    and o: "set ol2 = set open_list1 \<union> (\<lambda>m. (of_int (gc + 1) + h m goal, gc + 1, m)) ` U"
    and gs: "\<And>m. gs2 m = (if m \<in> U then Some (gc + 1) else g_score s m)"
    and cf: "\<And>m. cf2 m = (if m \<in> U then Some (Some current) else came_from s m)"
    and u1: "\<And>m. m \<in> U \<Longrightarrow> ?R current m \<and> m \<notin> closed_set s \<and> m \<noteq> current \<and> m \<noteq> start"
    and u2: "\<And>m. ?R current m \<Longrightarrow> m \<in> closed_set s \<or> m = current \<or> m \<in> U
        \<or> (\<exists>gm. g_score s m = Some gm \<and> gm \<le> gc + 1)"
    and u3: "\<And>m g'. m \<in> U \<Longrightarrow> g_score s m = Some g' \<Longrightarrow> gc + 1 < g'"
    by (rule astar_expand_state[where h = h and goal = goal, OF tr expand(1,2,5)]) (rule that)
  from ex expand(6) have eq: "open_list2 = ol2" "came_from2 = cf2" "g_score2 = gs2" by simp_all
  from astar_pop_optimal[OF tr op co expand(1,2,3)] gc(1)
  have best: "\<And>k. walk ?R start current k \<Longrightarrow> nat gc \<le> k" by simp
  have cur2: "gs2 current = Some gc" using gs[of current] u1[of current] gc by auto
  have c1: "f' = of_int g' + h n goal \<and> (\<exists>g''. gs2 n = Some g'' \<and> g'' \<le> g')"
    if "(f', g', n) \<in> set ol2" for f' g' n
  proof -
    from that o consider "(f', g', n) \<in> set open_list1"
      | "n \<in> U" "f' = of_int (gc + 1) + h n goal" "g' = gc + 1" by auto
    then show ?thesis
    proof cases
      case 1
      with os have "(f', g', n) \<in> set (open_list s)" by simp
      from i1[OF this] obtain g0 where f': "f' = of_int g' + h n goal"
        and g0: "g_score s n = Some g0" "g0 \<le> g'" by blast
      show ?thesis
      proof (cases "n \<in> U")
        case True
        from u3[OF True g0(1)] g0(2) have "gc + 1 \<le> g'" by simp
        with gs[of n] True f' show ?thesis by simp
      next
        case False
        with gs[of n] g0 f' show ?thesis by simp
      qed
    next
      case 2
      with gs[of n] show ?thesis by simp
    qed
  qed
  have c2: "n \<in> insert current (closed_set s) \<or> (of_int g' + h n goal, g', n) \<in> set ol2"
    if "gs2 n = Some g'" for n g'
  proof (cases "n \<in> U")
    case True
    with gs[of n] that have "g' = gc + 1" by simp
    with True o show ?thesis by blast
  next
    case False
    with gs[of n] that have "g_score s n = Some g'" by simp
    from i2[OF this] os o show ?thesis by auto
  qed
  have c3: "\<exists>g. gs2 n = Some g \<and> (\<forall>k. walk ?R start n k \<longrightarrow> nat g \<le> k)
           \<and> (\<forall>m. ?R n m \<longrightarrow> (\<exists>gm. gs2 m = Some gm \<and> gm \<le> g + 1))"
    if "n \<in> insert current (closed_set s)" for n
  proof (cases "n = current")
    case True
    have nb: "\<exists>gm. gs2 m = Some gm \<and> gm \<le> gc + 1" if r: "?R current m" for m
    proof (cases "m \<in> U")
      case True
      with gs[of m] show ?thesis by simp
    next
      case False
      with gs[of m] have same: "gs2 m = g_score s m" by simp
      from u2[OF r] False consider "m \<in> closed_set s" | "m = current"
        | "\<exists>gm. g_score s m = Some gm \<and> gm \<le> gc + 1" by blast
      then show ?thesis
      proof cases
        case 1
        from i3[OF 1] obtain gm where gm: "g_score s m = Some gm"
          "\<forall>k. walk ?R start m k \<longrightarrow> nat gm \<le> k" by blast
        from walk_step[OF astar_tree_walk[OF tr gc(1)] r] gm(2)
        have "nat gm \<le> Suc (nat gc)" by blast
        with gc(2) have "gm \<le> gc + 1" by simp
        with gm(1) same show ?thesis by simp
      next
        case 2
        with cur2 show ?thesis by simp
      next
        case 3
        with same show ?thesis by simp
      qed
    qed
    from cur2 best nb True show ?thesis by blast
  next
    case False
    with that have nc: "n \<in> closed_set s" by simp
    from i3[OF nc] obtain gn where gn: "g_score s n = Some gn"
      "\<forall>k. walk ?R start n k \<longrightarrow> nat gn \<le> k"
      "\<forall>m. ?R n m \<longrightarrow> (\<exists>gm. g_score s m = Some gm \<and> gm \<le> gn + 1)" by blast
    from nc u1[of n] have "n \<notin> U" by blast
    with gs[of n] gn(1) have g2: "gs2 n = Some gn" by simp
    have nb: "\<exists>gm. gs2 m = Some gm \<and> gm \<le> gn + 1" if r: "?R n m" for m
    proof -
      from gn(3) r obtain gm where gm: "g_score s m = Some gm" "gm \<le> gn + 1" by blast
      show ?thesis
      proof (cases "m \<in> U")
        case True
        from u3[OF True gm(1)] gm(2) have "gc + 1 \<le> gn + 1" by simp
        with gs[of m] True show ?thesis by simp
      next
        case False
        with gs[of m] gm show ?thesis by simp
      qed
    qed
    from g2 gn(2) nb show ?thesis by blast
  qed
  from op expand(4) have c4: "goal \<notin> insert current (closed_set s)"
    unfolding astar_opt_def by simp
  show ?thesis unfolding astar_opt_def expand(7) eq
    using c1 c2 c3 c4 by simp
qed


lemma astar_opt_empty:
  assumes tr: "astar_tree R start s" and op: "astar_opt R h goal start s"
    and em: "open_list s = []"
    and p: "p \<noteq> []" "hd p = start" "last p = goal" "successively R p"
  shows False
proof -
  from tr have s0: "g_score s start = Some 0" unfolding astar_tree_def by blast
  from op have cl: "\<And>n. n \<in> closed_set s \<Longrightarrow> \<exists>g. g_score s n = Some g
           \<and> (\<forall>k. walk R start n k \<longrightarrow> nat g \<le> k)
           \<and> (\<forall>m. R n m \<longrightarrow> (\<exists>gm. g_score s m = Some gm \<and> gm \<le> g + 1))"
    and hp: "\<And>n g. g_score s n = Some g \<Longrightarrow> n \<notin> closed_set s
      \<Longrightarrow> (of_int g + h n goal, g, n) \<in> set (open_list s)"
    and gl: "goal \<notin> closed_set s"
    unfolding astar_opt_def by blast+
  from p(3) gl have "last p \<notin> closed_set s" by simp
  from first_open[of "g_score s", OF s0 cl p(1,2,4) this] obtain i gi where
    "p ! i \<notin> closed_set s" "g_score s (p ! i) = Some gi" by blast
  from hp[OF this(2,1)] em show False by simp
qed

lemma astar_step_total:
  assumes tr: "astar_tree (grid_step grid rows cols) start s"
    and d: "dims_ok grid rows cols"
    and st: "astar_step grid goal rows cols h s = Return r"
  shows "\<exists>p vis fr. r = Some (Inr (p, vis, fr))"
proof (cases "open_list s = []")
  case True
  with st show ?thesis by (auto simp: astar_step_def)
next
  case ne: False
  obtain f g current open_list1 where
    pop: "heappop (open_list s) = ((f, g, current), open_list1)"
    by (metis surj_pair)
  from heappop_props(1)[OF ne pop] have mem: "(f, g, current) \<in> set (open_list s)" by simp
  with tr have cd: "current \<in> dom (g_score s)" unfolding astar_tree_def by blast
  from tr have t: "tree_ok (grid_step grid rows cols) start (came_from s)
      (\<lambda>n. nat (the (g_score s n))) (dom (g_score s))"
    unfolding astar_tree_def by blast
  show ?thesis
  proof (cases "current \<in> closed_set s")
    case True
    with st ne pop show ?thesis by (auto simp: astar_step_def)
  next
    case nc: False
    show ?thesis
    proof (cases "current = goal")
      case True
      from reconstruct_path_tree[OF t cd] True obtain path where
        "reconstruct_path (came_from s) goal = Some (Inr path)" by blast
      with st ne pop nc True show ?thesis
        by (auto simp: astar_step_def Let_def finish_def)
    next
      case ng: False
      from get_neighbors_total[OF d] obtain neighbors where
        nb: "get_neighbors grid (fst current) (snd current) rows cols = Inr neighbors" by blast
      obtain gc U ol2 cf2 gs2 where
        "g_score s current = Some gc" "0 \<le> gc"
        and "U = improved (insert current (closed_set s)) (g_score s) gc neighbors"
        and ex: "astar_expand h goal current (insert current (closed_set s)) neighbors
           (open_list1, came_from s, g_score s) = Inr (ol2, cf2, gs2)"
        by (rule astar_expand_state[where h = h and goal = goal, OF tr ne pop nb])
      with st ne pop nc ng nb show ?thesis by (auto simp: astar_step_def Let_def)
    qed
  qed
qed


lemma astar_returns:
  assumes "dims_ok grid rows cols"
  shows "\<exists>p vis fr. astar grid start goal rows cols h = Some (Inr (p, vis, fr))"
proof -
  let ?R = "grid_step grid rows cols"
  let ?s0 = "\<lparr>open_list = heappush [] (h start goal, 0, start), came_from = [start \<mapsto> None],
      visited_order = [], frontier_snapshots = [], g_score = [start \<mapsto> 0], closed_set = {}\<rparr>"
  have "\<exists>p vis fr. astar_loop grid goal rows cols h ?s0 = Some (Inr (p, vis, fr))"
  proof (rule astar_loop_rule[where I = "astar_tree ?R start"])
    show "astar_tree ?R start ?s0" by (rule astar_tree_init)
  next
    fix s s' :: "('a \<times> int \<times> coord) astar_state"
    assume "astar_tree ?R start s" "astar_step grid goal rows cols h s = Continue s'"
    then show "astar_tree ?R start s'" by (rule astar_tree_step)
  next
    fix s :: "('a \<times> int \<times> coord) astar_state" and r
    assume "astar_tree ?R start s" "astar_step grid goal rows cols h s = Return r"
    from astar_step_total[OF this(1) assms this(2)]
    show "\<exists>p vis fr. r = Some (Inr (p, vis, fr))" .
  qed
  then show ?thesis by (simp add: astar_def)
qed

lemma astar_optimal:
  fixes h :: "coord \<Rightarrow> coord \<Rightarrow> 'p::linordered_idom"
  assumes co: "consistent (grid_step grid rows cols) h goal"
    and q: "path_between grid rows cols start goal q"
  shows "astar grid start goal rows cols h = Some (Inr (p, vis, fr))
     \<Longrightarrow> \<exists>path. p = Some path \<and> length path \<le> length q"
proof -
  let ?R = "grid_step grid rows cols"
  let ?P = "\<lambda>r. \<forall>p vis fr. r = Some (Inr (p, vis, fr))
      \<longrightarrow> (\<exists>path. p = Some path \<and> length path \<le> length q)"
  let ?s0 = "\<lparr>open_list = heappush [] (h start goal, 0, start), came_from = [start \<mapsto> None],
      visited_order = [], frontier_snapshots = [], g_score = [start \<mapsto> 0], closed_set = {}\<rparr>"
  from q have qp: "q \<noteq> []" "hd q = start" "last q = goal" "successively ?R q"
    unfolding path_between_def by simp_all
  then have qw: "walk ?R start goal (length q - 1)" unfolding walk_def by (intro exI[of _ q]) simp
  have "?P (astar_loop grid goal rows cols h ?s0)"
  proof (rule astar_loop_rule[where I = "\<lambda>s. astar_tree ?R start s \<and> astar_opt ?R h goal start s"])
    show "astar_tree ?R start ?s0 \<and> astar_opt ?R h goal start ?s0"
      by (intro conjI astar_tree_init astar_opt_init)
  next
    fix s s' :: "('p \<times> int \<times> coord) astar_state"
    assume I: "astar_tree ?R start s \<and> astar_opt ?R h goal start s"
      and st: "astar_step grid goal rows cols h s = Continue s'"
    from I have tr: "astar_tree ?R start s" and op: "astar_opt ?R h goal start s" by simp_all
    from astar_tree_step[OF tr st] astar_opt_step[OF tr op co st]
    show "astar_tree ?R start s' \<and> astar_opt ?R h goal start s'" by (rule conjI)
  next
    fix s :: "('p \<times> int \<times> coord) astar_state" and r
    assume I: "astar_tree ?R start s \<and> astar_opt ?R h goal start s"
      and st: "astar_step grid goal rows cols h s = Return r"
    from I have tr: "astar_tree ?R start s" and op: "astar_opt ?R h goal start s" by simp_all
    from st show "?P r"
    proof (cases rule: astar_step_Return)
      case empty
      from astar_opt_empty[OF tr op empty(1) qp] show ?thesis ..
    next
      case (found f g open_list1)
      note po = astar_pop_optimal[OF tr op co found(1,2,3)]
      from po have g: "g_score s goal = Some g" by (rule conjunct1)
      from po[THEN conjunct2, rule_format, OF qw] have le: "nat g \<le> length q - 1" .
      from tr have t: "tree_ok ?R start (came_from s) (\<lambda>n. nat (the (g_score s n))) (dom (g_score s))"
        unfolding astar_tree_def by blast
      from g have "goal \<in> dom (g_score s)" by (simp add: dom_def)
      from reconstruct_path_tree[OF t this] obtain path where
        path: "reconstruct_path (came_from s) goal = Some (Inr path)"
        and "length path = Suc (nat (the (g_score s goal)))"
        by blast
      with g have pl: "length path = Suc (nat g)" by simp
      from le qp(1) pl have "length path \<le> length q" by (cases q) simp_all
      with path found(4) show ?thesis by (simp add: finish_def)
    next
      case raised
      then show ?thesis by simp
    qed
  qed
  then show "astar grid start goal rows cols h = Some (Inr (p, vis, fr))
     \<Longrightarrow> \<exists>path. p = Some path \<and> length path \<le> length q"
    by (simp add: astar_def)
qed

lemma manhattan_consistent: "consistent (grid_step grid rows cols) manhattan_distance goal"
  unfolding consistent_def
proof (intro allI impI)
  fix a b assume "grid_step grid rows cols a b"
  then have "adjacent4 a b" unfolding grid_step_def by (rule conjunct1)
  then have "manhattan_distance a b = 1" by (simp only: adjacent4_manhattan)
  with manhattan_triangle[of a goal b] show "manhattan_distance a goal \<le> manhattan_distance b goal + 1"
    by linarith
qed

text \<open>An obstacle-free grid: every cell in bounds can be read and is not an obstacle.\<close>

definition obstacle_free :: "cell_state list list \<Rightarrow> int \<Rightarrow> int \<Rightarrow> bool" where
  "obstacle_free grid rows cols = (\<forall>n. in_bounds rows cols n \<longrightarrow> walkable grid rows cols n)"


lemma abs_sum_zero: "\<bar>x\<bar> + \<bar>y\<bar> = 0 \<Longrightarrow> x = 0 \<and> y = (0::int)"
  by linarith

lemma abs_step_up:
  "x < y \<Longrightarrow> \<bar>x + 1 - y\<bar> + z = \<bar>x - y\<bar> + z - (1::int)"
  "x < y \<Longrightarrow> z + \<bar>x + 1 - y\<bar> = z + \<bar>x - y\<bar> - (1::int)"
  by linarith+

lemma abs_step_down:
  "y < x \<Longrightarrow> \<bar>x - 1 - y\<bar> + z = \<bar>x - y\<bar> + z - (1::int)"
  "y < x \<Longrightarrow> z + \<bar>x - 1 - y\<bar> = z + \<bar>x - y\<bar> - (1::int)"
  by linarith+

lemma adjacent4_unit:
  "adjacent4 (r, c) (r + 1, c)" "adjacent4 (r, c) (r - 1, c)"
  "adjacent4 (r, c) (r, c + 1)" "adjacent4 (r, c) (r, c - 1)"
  by (simp_all add: adjacent4_def directions_def)

lemma manhattan_closer:
  assumes "a \<noteq> b" "in_bounds rows cols a" "in_bounds rows cols b"
  shows "\<exists>c. adjacent4 a c \<and> in_bounds rows cols c
      \<and> manhattan_distance c b = manhattan_distance a b - 1"
proof -
  obtain r c where a: "a = (r, c)" by (cases a)
  obtain r' c' where b: "b = (r', c')" by (cases b)
  from assms(2,3) have ib: "0 \<le> r" "r < rows" "0 \<le> c" "c < cols"
    "0 \<le> r'" "r' < rows" "0 \<le> c'" "c' < cols"
    unfolding a b in_bounds_def by simp_all
  from assms(1) have "r \<noteq> r' \<or> c \<noteq> c'" unfolding a b by simp
  then consider "r < r'" | "r' < r" | "c < c'" | "c' < c" by linarith
  then show ?thesis
  proof cases
    case 1
    from 1 ib have "in_bounds rows cols (r + 1, c)" unfolding in_bounds_def fst_conv snd_conv
      by linarith
    moreover have "manhattan_distance (r + 1, c) b = manhattan_distance a b - 1"
      unfolding a b manhattan_distance_def fst_conv snd_conv by (rule abs_step_up(1)[OF 1])
    ultimately show ?thesis unfolding a
      by (intro exI[of _ "(r + 1, c)"] conjI adjacent4_unit)
  next
    case 2
    from 2 ib have "in_bounds rows cols (r - 1, c)" unfolding in_bounds_def fst_conv snd_conv
      by linarith
    moreover have "manhattan_distance (r - 1, c) b = manhattan_distance a b - 1"
      unfolding a b manhattan_distance_def fst_conv snd_conv by (rule abs_step_down(1)[OF 2])
    ultimately show ?thesis unfolding a
      by (intro exI[of _ "(r - 1, c)"] conjI adjacent4_unit)
  next
    case 3
    from 3 ib have "in_bounds rows cols (r, c + 1)" unfolding in_bounds_def fst_conv snd_conv
      by linarith
    moreover have "manhattan_distance (r, c + 1) b = manhattan_distance a b - 1"
      unfolding a b manhattan_distance_def fst_conv snd_conv by (rule abs_step_up(2)[OF 3])
    ultimately show ?thesis unfolding a
      by (intro exI[of _ "(r, c + 1)"] conjI adjacent4_unit)
  next
    case 4
    from 4 ib have "in_bounds rows cols (r, c - 1)" unfolding in_bounds_def fst_conv snd_conv
      by linarith
    moreover have "manhattan_distance (r, c - 1) b = manhattan_distance a b - 1"
      unfolding a b manhattan_distance_def fst_conv snd_conv by (rule abs_step_down(2)[OF 4])
    ultimately show ?thesis unfolding a
      by (intro exI[of _ "(r, c - 1)"] conjI adjacent4_unit)
  qed
qed


lemma manhattan_zero: "manhattan_distance a b = 0 \<Longrightarrow> a = b"
proof -
  assume "manhattan_distance a b = 0"
  then have "fst a - fst b = 0 \<and> snd a - snd b = 0"
    unfolding manhattan_distance_def by (rule abs_sum_zero)
  then show "a = b" by (simp add: prod_eq_iff)
qed

lemma manhattan_nonneg: "0 \<le> manhattan_distance a b"
  unfolding manhattan_distance_def by (intro add_nonneg_nonneg abs_ge_zero)

lemma manhattan_refl: "manhattan_distance a a = 0"
  unfolding manhattan_distance_def by simp

lemma manhattan_path:
  assumes free: "obstacle_free grid rows cols" and b: "in_bounds rows cols b"
  shows "in_bounds rows cols a \<Longrightarrow> nat (manhattan_distance a b) = k
    \<Longrightarrow> \<exists>p. path_between grid rows cols a b p \<and> length p = Suc k"
proof (induction k arbitrary: a)
  case 0
  with manhattan_nonneg[of a b] have "manhattan_distance a b = 0" by simp
  then have "a = b" by (rule manhattan_zero)
  then have "path_between grid rows cols a b [a] \<and> length [a] = Suc 0"
    by (simp add: path_between_def)
  then show ?case by blast
next
  case (Suc k)
  have ne: "a \<noteq> b"
  proof
    assume "a = b"
    with Suc.prems(2) manhattan_refl[of b] show False by simp
  qed
  from manhattan_closer[OF ne Suc.prems(1) b] obtain c where
    c: "adjacent4 a c" "in_bounds rows cols c"
    "manhattan_distance c b = manhattan_distance a b - 1" by blast
  from c(3) Suc.prems(2) have "nat (manhattan_distance c b) = k" by simp
  from Suc.IH[OF c(2) this] obtain p where
    p: "path_between grid rows cols c b p" "length p = Suc k" by blast
  from p(1) have pp: "p \<noteq> []" "hd p = c" "last p = b" "successively (grid_step grid rows cols) p"
    unfolding path_between_def by simp_all
  from free c(2) have "walkable grid rows cols c" unfolding obstacle_free_def by blast
  with c(1) have "grid_step grid rows cols a c" by (simp add: grid_step_def)
  with pp have "successively (grid_step grid rows cols) (a # p)" by (cases p) simp_all
  with pp p(2) have "path_between grid rows cols a b (a # p) \<and> length (a # p) = Suc (Suc k)"
    by (simp add: path_between_def)
  then show ?case by blast
qed


subsection \<open>The passes of the loops that reach the snapshot line\<close>

text \<open>
  A pass of the \<open>while\<close> loop either returns, or skips a stale entry (A* only), or processes the
  neighbours of the popped node and then executes \<open>frontier_snapshots.append(...)\<close>. The
  following functions collect the loop states right after each pass of the last kind; such a
  pass is the only one that continues with a longer \<open>visited_order\<close>.
\<close>

function astar_expansions :: "cell_state list list \<Rightarrow> coord \<Rightarrow> int \<Rightarrow> int
    \<Rightarrow> (coord \<Rightarrow> coord \<Rightarrow> 'p::linordered_idom) \<Rightarrow> ('p \<times> int \<times> coord) astar_state
    \<Rightarrow> ('p \<times> int \<times> coord) astar_state list" where
  "astar_expansions grid goal rows cols heuristic_fn s =
     (case astar_step grid goal rows cols heuristic_fn s of
        Return r \<Rightarrow> []
      | Continue s' \<Rightarrow>
          (if length (visited_order s') = length (visited_order s) then [] else [s'])
            @ astar_expansions grid goal rows cols heuristic_fn s')"
  by pat_completeness auto
termination
  by (relation "inv_image (less_than <*lex*> less_than)
        (\<lambda>(grid, goal, rows, cols, h, s). astar_measure rows cols s)")
     (auto intro: wf_inv_image wf_lex_prod dest: astar_step_decreases)

function greedy_expansions :: "cell_state list list \<Rightarrow> coord \<Rightarrow> int \<Rightarrow> int
    \<Rightarrow> (coord \<Rightarrow> coord \<Rightarrow> 'p::linorder) \<Rightarrow> ('p \<times> coord) search_state
    \<Rightarrow> ('p \<times> coord) search_state list" where
  "greedy_expansions grid goal rows cols heuristic_fn s =
     (case greedy_step grid goal rows cols heuristic_fn s of
        Return r \<Rightarrow> []
      | Continue s' \<Rightarrow> s' # greedy_expansions grid goal rows cols heuristic_fn s')"
  by pat_completeness auto
termination
  by (relation "measure (\<lambda>(grid, goal, rows, cols, h, s). greedy_measure rows cols s)")
     (auto dest: greedy_step_decreases)

text \<open>The last entry of \<open>visited_order\<close> when a path is returned: the goal.\<close>

definition goal_pop :: "coord list option \<Rightarrow> coord \<Rightarrow> coord list" where
  "goal_pop p goal = (case p of None \<Rightarrow> [] | Some path \<Rightarrow> [goal])"

lemma astar_loop_log:
  "astar_loop grid goal rows cols h s = Some (Inr (p, vis, fr))
   \<Longrightarrow> fr = frontier_snapshots s
          @ map (\<lambda>s'. heap_nodes (open_list s')) (astar_expansions grid goal rows cols h s)
     \<and> vis = visited_order s
          @ map (\<lambda>s'. last (visited_order s')) (astar_expansions grid goal rows cols h s)
          @ goal_pop p goal"
proof (induction grid goal rows cols h s rule: astar_loop.induct)
  case (1 grid goal rows cols h s)
  show ?case
  proof (cases "astar_step grid goal rows cols h s")
    case (Return r)
    with "1.prems" have r: "r = Some (Inr (p, vis, fr))" by simp
    from Return have e: "astar_expansions grid goal rows cols h s = []" by simp
    from Return show ?thesis
    proof (cases rule: astar_step_Return)
      case empty
      with r e show ?thesis by (simp add: goal_pop_def)
    next
      case (found f g open_list1)
      with r have "finish (came_from s) goal (visited_order s @ [goal]) (frontier_snapshots s)
          = Some (Inr (p, vis, fr))" by simp
      then obtain path where "p = Some path" "vis = visited_order s @ [goal]"
        "fr = frontier_snapshots s" unfolding finish_Some by blast
      with e show ?thesis by (simp add: goal_pop_def)
    next
      case (raised e)
      with r show ?thesis by simp
    qed
  next
    case (Continue s')
    with "1.prems" have "astar_loop grid goal rows cols h s' = Some (Inr (p, vis, fr))" by simp
    from "1.IH"[OF Continue this] have
      ih: "fr = frontier_snapshots s'
          @ map (\<lambda>s'. heap_nodes (open_list s')) (astar_expansions grid goal rows cols h s')"
      "vis = visited_order s'
          @ map (\<lambda>s'. last (visited_order s')) (astar_expansions grid goal rows cols h s')
          @ goal_pop p goal" by simp_all
    from Continue show ?thesis
    proof (cases rule: astar_step_Continue)
      case (stale f g current open_list1)
      then have "frontier_snapshots s' = frontier_snapshots s" "visited_order s' = visited_order s"
        by simp_all
      moreover from this Continue
      have "astar_expansions grid goal rows cols h s = astar_expansions grid goal rows cols h s'"
        by simp
      ultimately show ?thesis using ih by simp
    next
      case (expand f g current open_list1 neighbors open_list2 came_from2 g_score2)
      then have a: "frontier_snapshots s' = frontier_snapshots s @ [heap_nodes (open_list s')]"
        "visited_order s' = visited_order s @ [last (visited_order s')]"
        by simp_all
      then have "length (visited_order s') \<noteq> length (visited_order s)"
        by (metis length_append_singleton n_not_Suc_n)
      with Continue
      have "astar_expansions grid goal rows cols h s = s' # astar_expansions grid goal rows cols h s'"
        by simp
      with ih a show ?thesis by simp
    qed
  qed
qed

lemma greedy_loop_log:
  "greedy_loop grid goal rows cols h s = Some (Inr (p, vis, fr))
   \<Longrightarrow> fr = frontier_snapshots s
          @ map (\<lambda>s'. snd ` set (open_list s')) (greedy_expansions grid goal rows cols h s)
     \<and> vis = visited_order s
          @ map (\<lambda>s'. last (visited_order s')) (greedy_expansions grid goal rows cols h s)
          @ goal_pop p goal"
proof (induction grid goal rows cols h s rule: greedy_loop.induct)
  case (1 grid goal rows cols h s)
  show ?case
  proof (cases "greedy_step grid goal rows cols h s")
    case (Return r)
    with "1.prems" have r: "r = Some (Inr (p, vis, fr))" by simp
    from Return have e: "greedy_expansions grid goal rows cols h s = []" by simp
    from Return show ?thesis
    proof (cases rule: greedy_step_Return)
      case empty
      with r e show ?thesis by (simp add: goal_pop_def)
    next
      case (found priority open_list1)
      with r have "finish (came_from s) goal (visited_order s @ [goal]) (frontier_snapshots s)
          = Some (Inr (p, vis, fr))" by simp
      then obtain path where "p = Some path" "vis = visited_order s @ [goal]"
        "fr = frontier_snapshots s" unfolding finish_Some by blast
      with e show ?thesis by (simp add: goal_pop_def)
    next
      case (raised e)
      with r show ?thesis by simp
    qed
  next
    case (Continue s')
    with "1.prems" have "greedy_loop grid goal rows cols h s' = Some (Inr (p, vis, fr))" by simp
    from "1.IH"[OF Continue this] have
      ih: "fr = frontier_snapshots s'
          @ map (\<lambda>s'. snd ` set (open_list s')) (greedy_expansions grid goal rows cols h s')"
      "vis = visited_order s'
          @ map (\<lambda>s'. last (visited_order s')) (greedy_expansions grid goal rows cols h s')
          @ goal_pop p goal" by simp_all
    from Continue have ex: "greedy_expansions grid goal rows cols h s
        = s' # greedy_expansions grid goal rows cols h s'" by simp
    from Continue have a: "frontier_snapshots s' = frontier_snapshots s @ [snd ` set (open_list s')]"
        "visited_order s' = visited_order s @ [last (visited_order s')]"
      by (cases rule: greedy_step_Continue; simp)+
    with ih ex show ?thesis by simp
  qed
qed



section \<open>Claims about the search algorithms\<close>

subsection \<open>Concrete grids\<close>

definition grid_3x3_cells :: "cell_state list list" where
  "grid_3x3_cells = [[START, EMPTY, EMPTY], [EMPTY, EMPTY, EMPTY], [EMPTY, EMPTY, GOAL]]"

definition trap_grid :: "cell_state list list" where
  "trap_grid = [[START, EMPTY, EMPTY, EMPTY, EMPTY, GOAL],
                [EMPTY, EMPTY, EMPTY, OBSTACLE, OBSTACLE, OBSTACLE]]"

definition h_trap :: "coord \<Rightarrow> coord \<Rightarrow> int" where
  "h_trap n goal = (if n = (0, 1) \<and> goal = (0, 5) then 4 else 0)"

definition detour_grid :: "cell_state list list" where
  "detour_grid = [[EMPTY, EMPTY, EMPTY, EMPTY, EMPTY],
                  [OBSTACLE, EMPTY, EMPTY, EMPTY, EMPTY],
                  [GOAL, EMPTY, OBSTACLE, EMPTY, START]]"

definition h_detour :: "coord \<Rightarrow> coord \<Rightarrow> int" where
  "h_detour n goal =
     (if goal = (2, 0)
      then (if n = (0, 3) then 2 else if n = (1, 3) then 4 else if n = (1, 4) then 5 else 0)
      else 0)"

definition astar_passes :: "cell_state list list \<Rightarrow> coord \<Rightarrow> coord \<Rightarrow> int \<Rightarrow> int
    \<Rightarrow> (coord \<Rightarrow> coord \<Rightarrow> 'p::linordered_idom) \<Rightarrow> ('p \<times> int \<times> coord) astar_state list" where
  "astar_passes grid start goal rows cols heuristic_fn =
     astar_expansions grid goal rows cols heuristic_fn
       \<lparr>open_list = heappush [] (heuristic_fn start goal, 0, start), came_from = [start \<mapsto> None],
        visited_order = [], frontier_snapshots = [],
        g_score = [start \<mapsto> 0], closed_set = {}\<rparr>"

definition greedy_passes :: "cell_state list list \<Rightarrow> coord \<Rightarrow> coord \<Rightarrow> int \<Rightarrow> int
    \<Rightarrow> (coord \<Rightarrow> coord \<Rightarrow> 'p::linorder) \<Rightarrow> ('p \<times> coord) search_state list" where
  "greedy_passes grid start goal rows cols heuristic_fn =
     greedy_expansions grid goal rows cols heuristic_fn
       \<lparr>open_list = heappush [] (heuristic_fn start goal, start),
        came_from = [start \<mapsto> None], visited_order = [], frontier_snapshots = []\<rparr>"

lemma astar_3x3:
  "astar grid_3x3_cells (0, 0) (2, 2) 3 3 manhattan_distance =
     Some (Inr (Some [(0, 0), (0, 1), (0, 2), (1, 2), (2, 2)],
        [(0, 0), (0, 1), (1, 0), (0, 2), (1, 1), (2, 0), (1, 2), (2, 1), (2, 2)],
        [{(1, 0), (0, 1)}, {(1, 0), (1, 1), (0, 2)},
         {(1, 1), (0, 2), (2, 0)}, {(1, 1), (2, 0), (1, 2)},
         {(2, 0), (1, 2), (2, 1)}, {(1, 2), (2, 1)}, {(2, 1), (2, 2)},
         {(2, 2)}]))"
  by code_simp

lemma greedy_3x3:
  "greedy_bfs grid_3x3_cells (0, 0) (2, 2) 3 3 manhattan_distance =
     Some (Inr (Some [(0, 0), (0, 1), (0, 2), (1, 2), (2, 2)],
        [(0, 0), (0, 1), (0, 2), (1, 2), (2, 2)],
        [{(1, 0), (0, 1)}, {(1, 0), (1, 1), (0, 2)},
         {(1, 0), (1, 1), (1, 2)}, {(1, 0), (1, 1), (2, 2)}]))"
  by code_simp

lemma astar_trap:
  "astar trap_grid (0, 0) (0, 5) 2 6 h_trap =
     Some (Inr (Some [(0, 0), (1, 0), (1, 1), (1, 2), (0, 2), (0, 3), (0, 4), (0, 5)],
        [(0, 0), (1, 0), (1, 1), (1, 2), (0, 2), (0, 1), (0, 3), (0, 4), (0, 5)],
        [{(1, 0), (0, 1)}, {(0, 1), (1, 1)}, {(0, 1), (1, 2)},
         {(0, 1), (0, 2)}, {(0, 1), (0, 3)}, {(0, 3)}, {(0, 4)}, {(0, 5)}]))"
  by code_simp

lemma astar_detour:
  "astar detour_grid (2, 4) (2, 0) 3 5 h_detour =
     Some (Inr (Some [(2, 4), (1, 4), (0, 4), (0, 3), (0, 2), (0, 1), (1, 1), (2, 1), (2, 0)],
        [(2, 4), (2, 3), (1, 4), (0, 4), (0, 3), (0, 2), (0, 1), (1, 2),
         (1, 3), (0, 0), (1, 1), (2, 1), (2, 0)],
        [{(1, 4), (2, 3)}, {(1, 4), (1, 3)}, {(1, 3), (0, 4)},
         {(1, 3), (0, 3)}, {(1, 3), (0, 2)}, {(1, 3), (1, 2), (0, 1)},
         {(1, 3), (1, 2), (1, 1), (0, 0)}, {(1, 3), (1, 1), (0, 0)},
         {(1, 1), (0, 0)}, {(1, 1)}, {(2, 1)}, {(2, 0)}]))"
  by code_simp

lemma greedy_detour:
  "greedy_bfs detour_grid (2, 4) (2, 0) 3 5 h_detour =
     Some (Inr (Some [(2, 4), (2, 3), (1, 3), (1, 2), (1, 1), (2, 1), (2, 0)],
        [(2, 4), (2, 3), (1, 3), (1, 2), (0, 2), (0, 1), (0, 0), (1, 1), (2, 1), (2, 0)],
        [{(1, 4), (2, 3)}, {(1, 4), (1, 3)}, {(1, 4), (0, 3), (1, 2)},
         {(1, 4), (0, 3), (0, 2), (1, 1)}, {(1, 4), (0, 3), (1, 1), (0, 1)},
         {(1, 4), (0, 3), (1, 1), (0, 0)}, {(1, 4), (0, 3), (1, 1)},
         {(1, 4), (0, 3), (2, 1)}, {(1, 4), (0, 3), (2, 0)}]))"
  by code_simp

lemma astar_blocked_start:
  "astar [[OBSTACLE, EMPTY]] (0, 0) (0, 1) 1 2 manhattan_distance =
     Some (Inr (Some [(0, 0), (0, 1)], [(0, 0), (0, 1)], [{(0, 1)}]))"
  by code_simp

lemma greedy_blocked_start:
  "greedy_bfs [[OBSTACLE, EMPTY]] (0, 0) (0, 1) 1 2 manhattan_distance =
     Some (Inr (Some [(0, 0), (0, 1)], [(0, 0), (0, 1)], [{(0, 1)}]))"
  by code_simp

lemma astar_1x2:
  "astar [[START, GOAL]] (0, 0) (0, 1) 1 2 manhattan_distance =
     Some (Inr (Some [(0, 0), (0, 1)], [(0, 0), (0, 1)], [{(0, 1)}]))"
  by code_simp

lemma greedy_1x2:
  "greedy_bfs [[START, GOAL]] (0, 0) (0, 1) 1 2 manhattan_distance =
     Some (Inr (Some [(0, 0), (0, 1)], [(0, 0), (0, 1)], [{(0, 1)}]))"
  by code_simp


subsection \<open>Helper facts\<close>

lemma path_cells:
  "successively (grid_step grid rows cols) p
   \<Longrightarrow> (\<forall>i. Suc i < length p \<longrightarrow> adjacent4 (p ! i) (p ! Suc i))
     \<and> (\<forall>n \<in> set (tl p). walkable grid rows cols n)"
proof (induction p rule: induct_list012)
  case 1
  then show ?case by simp
next
  case (2 x)
  then show ?case by simp
next
  case (3 x y zs)
  from 3(3) have r: "grid_step grid rows cols x y"
    and s: "successively (grid_step grid rows cols) (y # zs)" by simp_all
  from 3(2)[OF s] have ih1: "\<And>i. Suc i < length (y # zs) \<Longrightarrow> adjacent4 ((y # zs) ! i) ((y # zs) ! Suc i)"
    and ih2: "\<And>n. n \<in> set zs \<Longrightarrow> walkable grid rows cols n" by simp_all
  have a: "adjacent4 ((x # y # zs) ! i) ((x # y # zs) ! Suc i)" if "Suc i < length (x # y # zs)" for i
  proof (cases i)
    case 0
    with r show ?thesis by (simp add: grid_step_def)
  next
    case (Suc j)
    with that ih1[of j] show ?thesis by simp
  qed
  have b: "walkable grid rows cols n" if "n \<in> set (tl (x # y # zs))" for n
    using that r ih2[of n] by (auto simp: grid_step_def)
  from a b show ?case by blast
qed

lemma h_trap_admissible:
  assumes "path_between grid rows cols n goal p"
  shows "h_trap n goal \<le> int (length p) - 1"
proof -
  have "h_trap n goal \<le> manhattan_distance n goal"
  proof (cases "n = (0, 1) \<and> goal = (0, 5)")
    case True
    then show ?thesis by (simp add: h_trap_def manhattan_distance_def)
  next
    case False
    then have "h_trap n goal = 0" by (auto simp: h_trap_def)
    with manhattan_nonneg[of n goal] show ?thesis by simp
  qed
  also from assms path_manhattan[of grid rows cols p] have "\<dots> \<le> int (length p) - 1"
    by (simp add: path_between_def)
  finally show ?thesis .
qed

lemma h_detour_admissible:
  assumes "path_between grid rows cols n goal p"
  shows "h_detour n goal \<le> int (length p) - 1"
proof -
  have "h_detour n goal \<le> manhattan_distance n goal"
  proof (cases "goal = (2, 0) \<and> (n = (0, 3) \<or> n = (1, 3) \<or> n = (1, 4))")
    case True
    then show ?thesis by (auto simp: h_detour_def manhattan_distance_def)
  next
    case False
    then have "h_detour n goal = 0" by (auto simp: h_detour_def)
    with manhattan_nonneg[of n goal] show ?thesis by simp
  qed
  also from assms path_manhattan[of grid rows cols p] have "\<dots> \<le> int (length p) - 1"
    by (simp add: path_between_def)
  finally show ?thesis .
qed

lemma obstacle_free_3x3: "obstacle_free grid_3x3_cells 3 3"
  unfolding obstacle_free_def
proof (intro allI impI)
  fix n :: coord assume b: "in_bounds 3 3 n"
  obtain r c where n: "n = (r, c)" by (cases n)
  from b have "r = 0 \<or> r = 1 \<or> r = 2" "c = 0 \<or> c = 1 \<or> c = 2"
    unfolding n in_bounds_def by auto
  with b show "walkable grid_3x3_cells 3 3 n" unfolding n
    by (auto simp: walkable_def grid_3x3_cells_def cells_get_def py_get_def py_index_def)
qed

lemma dims_ok_3x3: "dims_ok grid_3x3_cells 3 3"
  by (simp add: dims_ok_def grid_3x3_cells_def)

lemma path_3x3:
  "path_between grid_3x3_cells 3 3 (0, 0) (2, 2) [(0, 0), (1, 0), (2, 0), (2, 1), (2, 2)]"
  by (simp add: path_between_def grid_step_def adjacent4_def directions_def walkable_def
      in_bounds_def grid_3x3_cells_def cells_get_def py_get_def py_index_def)

lemma path_trap:
  "path_between trap_grid 2 6 (0, 0) (0, 5) [(0, 0), (0, 1), (0, 2), (0, 3), (0, 4), (0, 5)]"
  by (simp add: path_between_def grid_step_def adjacent4_def directions_def walkable_def
      in_bounds_def trap_grid_def cells_get_def py_get_def py_index_def)

subsection \<open>Shortest paths\<close>

text \<open>
  C1 (A* returns a shortest path for an admissible heuristic). As stated the claim fails:
  \<open>astar\<close> never re-opens a node of the closed set, so an admissible heuristic that is not
  consistent can make it close a node with a g-score that is too large. On the 2 by 6 grid
  \<open>trap_grid\<close> the heuristic \<open>h_trap\<close> (4 on the cell (0, 1), 0 elsewhere; it never exceeds the
  Manhattan distance, hence never the true distance, see \<open>h_trap_admissible\<close>) makes \<open>astar\<close>
  return a path of 7 steps from (0, 0) to (0, 5), while the top row is a path of 5 steps.
\<close>

theorem astar_not_shortest_counterexample:
  "astar trap_grid (0, 0) (0, 5) 2 6 h_trap =
     Some (Inr (Some [(0, 0), (1, 0), (1, 1), (1, 2), (0, 2), (0, 3), (0, 4), (0, 5)],
        [(0, 0), (1, 0), (1, 1), (1, 2), (0, 2), (0, 1), (0, 3), (0, 4), (0, 5)],
        [{(1, 0), (0, 1)}, {(0, 1), (1, 1)}, {(0, 1), (1, 2)},
         {(0, 1), (0, 2)}, {(0, 1), (0, 3)}, {(0, 3)}, {(0, 4)}, {(0, 5)}]))
   \<and> path_between trap_grid 2 6 (0, 0) (0, 5) [(0, 0), (0, 1), (0, 2), (0, 3), (0, 4), (0, 5)]
   \<and> length [(0, 0), (0, 1), (0, 2), (0, 3), (0, 4), (0::int, 5::int)]
       < length [(0, 0), (1, 0), (1, 1), (1, 2), (0, 2), (0, 3), (0, 4), (0::int, 5::int)]"
  using astar_trap path_trap by simp

text \<open>
  C1, amended. For a heuristic that is consistent on the grid (\<open>h a goal \<le> h b goal + 1\<close> for
  every step from \<open>a\<close> to a walkable 4-neighbour \<open>b\<close>), the path \<open>astar\<close> returns is a
  4-connected path from start to goal that is no longer than any other such path; on a grid
  of the declared dimensions \<open>astar\<close> does return a path whenever one exists; and on an
  obstacle-free grid, with start and goal in bounds, the path returned with the Manhattan
  heuristic has Manhattan distance plus 1 nodes.
\<close>

theorem astar_shortest_path:
  fixes h :: "coord \<Rightarrow> coord \<Rightarrow> 'p::linordered_idom"
  shows "(consistent (grid_step grid rows cols) h goal
       \<and> astar grid start goal rows cols h = Some (Inr (Some path, vis, fr))
       \<and> path_between grid rows cols start goal q
      \<longrightarrow> path_between grid rows cols start goal path \<and> length path \<le> length q)
    \<and> (consistent (grid_step grid rows cols) h goal \<and> dims_ok grid rows cols
       \<and> path_between grid rows cols start goal q
      \<longrightarrow> (\<exists>path vis fr. astar grid start goal rows cols h = Some (Inr (Some path, vis, fr))))
    \<and> (obstacle_free grid rows cols \<and> in_bounds rows cols start \<and> in_bounds rows cols goal
       \<and> astar grid start goal rows cols manhattan_distance = Some (Inr (Some path', vis', fr'))
      \<longrightarrow> int (length path') = manhattan_distance start goal + 1)"
proof (intro conjI impI)
  assume a: "consistent (grid_step grid rows cols) h goal
       \<and> astar grid start goal rows cols h = Some (Inr (Some path, vis, fr))
       \<and> path_between grid rows cols start goal q"
  then have co: "consistent (grid_step grid rows cols) h goal"
    and r: "astar grid start goal rows cols h = Some (Inr (Some path, vis, fr))"
    and q: "path_between grid rows cols start goal q" by simp_all
  from astar_path_result[OF r] show "path_between grid rows cols start goal path" by simp
  from astar_optimal[OF co q r] show "length path \<le> length q" by simp
next
  assume a: "consistent (grid_step grid rows cols) h goal \<and> dims_ok grid rows cols
       \<and> path_between grid rows cols start goal q"
  then have co: "consistent (grid_step grid rows cols) h goal"
    and d: "dims_ok grid rows cols"
    and q: "path_between grid rows cols start goal q" by simp_all
  from astar_returns[OF d] obtain p vis fr where
    r: "astar grid start goal rows cols h = Some (Inr (p, vis, fr))" by blast
  from astar_optimal[OF co q r] obtain path where "p = Some path" by blast
  with r show "\<exists>path vis fr. astar grid start goal rows cols h = Some (Inr (Some path, vis, fr))"
    by blast
next
  assume a: "obstacle_free grid rows cols \<and> in_bounds rows cols start \<and> in_bounds rows cols goal
       \<and> astar grid start goal rows cols manhattan_distance = Some (Inr (Some path', vis', fr'))"
  then have free: "obstacle_free grid rows cols"
    and bs: "in_bounds rows cols start" and bg: "in_bounds rows cols goal"
    and r: "astar grid start goal rows cols manhattan_distance = Some (Inr (Some path', vis', fr'))"
    by simp_all
  from manhattan_path[OF free bg bs refl] obtain q where
    q: "path_between grid rows cols start goal q"
    "length q = Suc (nat (manhattan_distance start goal))" by blast
  from astar_optimal[OF manhattan_consistent q(1) r] have "length path' \<le> length q" by simp
  with q(2) manhattan_nonneg[of start goal]
  have up: "int (length path') \<le> manhattan_distance start goal + 1" by simp
  from astar_path_result[OF r] have "path_between grid rows cols start goal path'" by simp
  then have "path' \<noteq> []" "hd path' = start" "last path' = goal"
    "successively (grid_step grid rows cols) path'" by (simp_all add: path_between_def)
  with path_manhattan[of grid rows cols path']
  have "manhattan_distance start goal \<le> int (length path') - 1" by simp
  with up show "int (length path') = manhattan_distance start goal + 1" by simp
qed

theorem astar_shortest_path_witness:
  "astar grid_3x3_cells (0, 0) (2, 2) 3 3 manhattan_distance =
     Some (Inr (Some [(0, 0), (0, 1), (0, 2), (1, 2), (2, 2)],
        [(0, 0), (0, 1), (1, 0), (0, 2), (1, 1), (2, 0), (1, 2), (2, 1), (2, 2)],
        [{(1, 0), (0, 1)}, {(1, 0), (1, 1), (0, 2)},
         {(1, 1), (0, 2), (2, 0)}, {(1, 1), (2, 0), (1, 2)},
         {(2, 0), (1, 2), (2, 1)}, {(1, 2), (2, 1)}, {(2, 1), (2, 2)},
         {(2, 2)}]))
   \<and> path_between grid_3x3_cells 3 3 (0, 0) (2, 2) [(0, 0), (0, 1), (0, 2), (1, 2), (2, 2)]
   \<and> length [(0, 0), (0, 1), (0, 2), (1, 2), (2::int, 2::int)]
       \<le> length [(0, 0), (1, 0), (2, 0), (2, 1), (2::int, 2::int)]
   \<and> int (length [(0, 0), (0, 1), (0, 2), (1, 2), (2::int, 2::int)])
       = manhattan_distance (0, 0) (2, 2) + 1"
proof -
  note T = astar_shortest_path[where grid = grid_3x3_cells and start = "(0, 0)" and goal = "(2, 2)"
      and rows = 3 and cols = 3 and h = manhattan_distance]
  have b: "in_bounds 3 3 (0, 0)" "in_bounds 3 3 (2, 2)" by (simp_all add: in_bounds_def)
  from T[THEN conjunct1, rule_format, OF conjI[OF manhattan_consistent conjI[OF astar_3x3 path_3x3]]]
  have one: "path_between grid_3x3_cells 3 3 (0, 0) (2, 2) [(0, 0), (0, 1), (0, 2), (1, 2), (2, 2)]
     \<and> length [(0, 0), (0, 1), (0, 2), (1, 2), (2::int, 2::int)]
       \<le> length [(0, 0), (1, 0), (2, 0), (2, 1), (2::int, 2::int)]" .
  from T[THEN conjunct2, THEN conjunct2, rule_format,
      OF conjI[OF obstacle_free_3x3 conjI[OF b(1) conjI[OF b(2) astar_3x3]]]]
  have three: "int (length [(0, 0), (0, 1), (0, 2), (1, 2), (2::int, 2::int)])
       = manhattan_distance (0, 0) (2, 2) + 1" .
  show ?thesis
    by (rule conjI[OF astar_3x3 conjI[OF one[THEN conjunct1] conjI[OF one[THEN conjunct2] three]]])
qed


subsection \<open>The returned path\<close>

text \<open>
  C5 (every cell of a returned path is in bounds and not an obstacle). As stated the claim
  fails for the first cell: neither search ever looks at the cell of \<open>start\<close>, only at the
  cells of the neighbours it pushes. On the 1 by 2 grid whose cell (0, 0) is an obstacle,
  both searches started at (0, 0) return the path from (0, 0) to (0, 1).
\<close>

theorem path_cells_counterexample:
  "astar [[OBSTACLE, EMPTY]] (0, 0) (0, 1) 1 2 manhattan_distance =
     Some (Inr (Some [(0, 0), (0, 1)], [(0, 0), (0, 1)], [{(0, 1)}]))
   \<and> greedy_bfs [[OBSTACLE, EMPTY]] (0, 0) (0, 1) 1 2 manhattan_distance =
     Some (Inr (Some [(0, 0), (0, 1)], [(0, 0), (0, 1)], [{(0, 1)}]))
   \<and> cells_get [[OBSTACLE, EMPTY]] 0 0 = Inr OBSTACLE"
  using astar_blocked_start greedy_blocked_start
  by (simp add: cells_get_def py_get_def py_index_def)

text \<open>
  C5, amended. The path returned by \<open>astar\<close> or by \<open>greedy_bfs\<close> starts at start, ends at
  goal, has no repeated coordinate, every consecutive pair of it is 4-adjacent, and every
  cell after the first is in bounds and not an obstacle; so is the first cell when the start
  cell itself is in bounds and not an obstacle.
\<close>

theorem search_path_valid:
  fixes h :: "coord \<Rightarrow> coord \<Rightarrow> 'p::linordered_idom" and h' :: "coord \<Rightarrow> coord \<Rightarrow> 'q::linorder"
  assumes "astar grid start goal rows cols h = Some (Inr (Some path, vis, fr))
     \<or> greedy_bfs grid start goal rows cols h' = Some (Inr (Some path, vis, fr))"
  shows "path \<noteq> [] \<and> hd path = start \<and> last path = goal \<and> distinct path
     \<and> (\<forall>i. Suc i < length path \<longrightarrow> adjacent4 (path ! i) (path ! Suc i))
     \<and> (\<forall>n \<in> set (tl path). walkable grid rows cols n)
     \<and> (walkable grid rows cols start \<longrightarrow> (\<forall>n \<in> set path. walkable grid rows cols n))"
proof -
  from assms astar_path_result[of grid start goal rows cols h path vis fr]
    greedy_bfs_path[of grid start goal rows cols h' path vis fr]
  have pb: "path_between grid rows cols start goal path" and d: "distinct path" by blast+
  from pb have ne: "path \<noteq> []" and hd: "hd path = start" and la: "last path = goal"
    and su: "successively (grid_step grid rows cols) path"
    by (simp_all add: path_between_def)
  from path_cells[OF su] have adj: "\<forall>i. Suc i < length path \<longrightarrow> adjacent4 (path ! i) (path ! Suc i)"
    and tl: "\<forall>n \<in> set (tl path). walkable grid rows cols n" by simp_all
  have all: "\<forall>n \<in> set path. walkable grid rows cols n" if "walkable grid rows cols start"
  proof
    fix n assume "n \<in> set path"
    with ne have "n = hd path \<or> n \<in> set (tl path)" by (cases path) auto
    with hd that tl show "walkable grid rows cols n" by blast
  qed
  from ne hd la d adj tl all show ?thesis by blast
qed

theorem search_path_valid_witness:
  "astar grid_3x3_cells (0, 0) (2, 2) 3 3 manhattan_distance =
     Some (Inr (Some [(0, 0), (0, 1), (0, 2), (1, 2), (2, 2)],
        [(0, 0), (0, 1), (1, 0), (0, 2), (1, 1), (2, 0), (1, 2), (2, 1), (2, 2)],
        [{(1, 0), (0, 1)}, {(1, 0), (1, 1), (0, 2)},
         {(1, 1), (0, 2), (2, 0)}, {(1, 1), (2, 0), (1, 2)},
         {(2, 0), (1, 2), (2, 1)}, {(1, 2), (2, 1)}, {(2, 1), (2, 2)},
         {(2, 2)}]))
   \<and> distinct [(0, 0), (0, 1), (0, 2), (1, 2), (2::int, 2::int)]
   \<and> adjacent4 ([(0, 0), (0, 1), (0, 2), (1, 2), (2, 2)] ! 0)
        ([(0, 0), (0, 1), (0, 2), (1, 2), (2, 2)] ! Suc 0)
   \<and> walkable grid_3x3_cells 3 3 (2, 2)"
proof -
  note T = search_path_valid[where h' = manhattan_distance, OF disjI1[OF astar_3x3]]
  note d = T[THEN conjunct2, THEN conjunct2, THEN conjunct2, THEN conjunct1]
  have l: "Suc 0 < length [(0, 0), (0, 1), (0, 2), (1, 2), (2::int, 2::int)]" by simp
  note a = T[THEN conjunct2, THEN conjunct2, THEN conjunct2, THEN conjunct2, THEN conjunct1,
      rule_format, OF l]
  have m: "(2, 2) \<in> set (tl [(0, 0), (0, 1), (0, 2), (1, 2), (2::int, 2::int)])" by simp
  note w = T[THEN conjunct2, THEN conjunct2, THEN conjunct2, THEN conjunct2, THEN conjunct2,
      THEN conjunct1, rule_format, OF m]
  show ?thesis by (rule conjI[OF astar_3x3 conjI[OF d conjI[OF a w]]])
qed

subsection \<open>A* against Greedy best-first search\<close>

text \<open>
  C6 (with an admissible heuristic the path of A* has no more steps than the path of Greedy
  BFS). As stated the claim fails, for the reason C1 fails: on the 3 by 5 grid \<open>detour_grid\<close>
  with the heuristic \<open>h_detour\<close> (which never exceeds the Manhattan distance, hence never the
  true distance, see \<open>h_detour_admissible\<close>) both searches from (2, 4) to (2, 0) succeed,
  \<open>astar\<close> with a path of 8 steps and \<open>greedy_bfs\<close> with a path of 6 steps.
\<close>

theorem astar_longer_than_greedy_counterexample:
  "astar detour_grid (2, 4) (2, 0) 3 5 h_detour =
     Some (Inr (Some [(2, 4), (1, 4), (0, 4), (0, 3), (0, 2), (0, 1), (1, 1), (2, 1), (2, 0)],
        [(2, 4), (2, 3), (1, 4), (0, 4), (0, 3), (0, 2), (0, 1), (1, 2),
         (1, 3), (0, 0), (1, 1), (2, 1), (2, 0)],
        [{(1, 4), (2, 3)}, {(1, 4), (1, 3)}, {(1, 3), (0, 4)},
         {(1, 3), (0, 3)}, {(1, 3), (0, 2)}, {(1, 3), (1, 2), (0, 1)},
         {(1, 3), (1, 2), (1, 1), (0, 0)}, {(1, 3), (1, 1), (0, 0)},
         {(1, 1), (0, 0)}, {(1, 1)}, {(2, 1)}, {(2, 0)}]))
   \<and> greedy_bfs detour_grid (2, 4) (2, 0) 3 5 h_detour =
     Some (Inr (Some [(2, 4), (2, 3), (1, 3), (1, 2), (1, 1), (2, 1), (2, 0)],
        [(2, 4), (2, 3), (1, 3), (1, 2), (0, 2), (0, 1), (0, 0), (1, 1), (2, 1), (2, 0)],
        [{(1, 4), (2, 3)}, {(1, 4), (1, 3)}, {(1, 4), (0, 3), (1, 2)},
         {(1, 4), (0, 3), (0, 2), (1, 1)}, {(1, 4), (0, 3), (1, 1), (0, 1)},
         {(1, 4), (0, 3), (1, 1), (0, 0)}, {(1, 4), (0, 3), (1, 1)},
         {(1, 4), (0, 3), (2, 1)}, {(1, 4), (0, 3), (2, 0)}]))
   \<and> int (length [(2, 4), (2, 3), (1, 3), (1, 2), (1, 1), (2, 1), (2::int, 0::int)]) - 1
     < int (length [(2, 4), (1, 4), (0, 4), (0, 3), (0, 2), (0, 1), (1, 1), (2, 1), (2::int, 0::int)]) - 1"
  using astar_detour greedy_detour by simp

text \<open>
  C6, amended. For a heuristic that is consistent on the grid, whenever \<open>astar\<close> and
  \<open>greedy_bfs\<close> both return a path, the step count of the path of \<open>astar\<close> is at most the
  step count of the path of \<open>greedy_bfs\<close>.
\<close>

theorem astar_no_longer_than_greedy:
  fixes h :: "coord \<Rightarrow> coord \<Rightarrow> 'p::linordered_idom"
  assumes "consistent (grid_step grid rows cols) h goal"
    and "astar grid start goal rows cols h = Some (Inr (Some pa, va, fa))"
    and "greedy_bfs grid start goal rows cols h = Some (Inr (Some pg, vg, fg))"
  shows "int (length pa) - 1 \<le> int (length pg) - 1"
proof -
  from greedy_bfs_path[OF assms(3)] have "path_between grid rows cols start goal pg" by simp
  from astar_optimal[OF assms(1) this assms(2)] show ?thesis by simp
qed

theorem astar_no_longer_than_greedy_witness:
  "astar grid_3x3_cells (0, 0) (2, 2) 3 3 manhattan_distance =
     Some (Inr (Some [(0, 0), (0, 1), (0, 2), (1, 2), (2, 2)],
        [(0, 0), (0, 1), (1, 0), (0, 2), (1, 1), (2, 0), (1, 2), (2, 1), (2, 2)],
        [{(1, 0), (0, 1)}, {(1, 0), (1, 1), (0, 2)},
         {(1, 1), (0, 2), (2, 0)}, {(1, 1), (2, 0), (1, 2)},
         {(2, 0), (1, 2), (2, 1)}, {(1, 2), (2, 1)}, {(2, 1), (2, 2)},
         {(2, 2)}]))
   \<and> greedy_bfs grid_3x3_cells (0, 0) (2, 2) 3 3 manhattan_distance =
     Some (Inr (Some [(0, 0), (0, 1), (0, 2), (1, 2), (2, 2)],
        [(0, 0), (0, 1), (0, 2), (1, 2), (2, 2)],
        [{(1, 0), (0, 1)}, {(1, 0), (1, 1), (0, 2)},
         {(1, 0), (1, 1), (1, 2)}, {(1, 0), (1, 1), (2, 2)}]))
   \<and> int (length [(0, 0), (0, 1), (0, 2), (1, 2), (2::int, 2::int)]) - 1
     \<le> int (length [(0, 0), (0, 1), (0, 2), (1, 2), (2::int, 2::int)]) - 1"
  by (rule conjI[OF astar_3x3 conjI[OF greedy_3x3
        astar_no_longer_than_greedy[OF manhattan_consistent astar_3x3 greedy_3x3]]])

subsection \<open>The frontier log\<close>

text \<open>
  C7 (one frontier snapshot for each node of \<open>visited_order\<close>). As stated the claim fails on
  every successful search: the pass that pops the goal appends it to \<open>visited_order\<close> and
  returns before the snapshot line. On the 1 by 2 grid the search from (0, 0) to (0, 1)
  visits two nodes and logs one snapshot.
\<close>

theorem frontier_log_counterexample:
  "astar [[START, GOAL]] (0, 0) (0, 1) 1 2 manhattan_distance =
     Some (Inr (Some [(0, 0), (0, 1)], [(0, 0), (0, 1)], [{(0, 1)}]))
   \<and> greedy_bfs [[START, GOAL]] (0, 0) (0, 1) 1 2 manhattan_distance =
     Some (Inr (Some [(0, 0), (0, 1)], [(0, 0), (0, 1)], [{(0, 1)}]))
   \<and> length [(0::int, 0::int), (0, 1)] = 2 \<and> length [{(0::int, 1::int)}] = 1"
  using astar_1x2 greedy_1x2 by simp

text \<open>
  C7, amended. Let the expansion passes of a search be the passes of its loop that process
  the neighbours of the popped node (\<open>astar_passes\<close>, \<open>greedy_passes\<close>: the loop states at the
  end of these passes). When \<open>astar\<close> or \<open>greedy_bfs\<close> returns, the frontier log holds exactly
  one snapshot per expansion pass, in order, and that snapshot is the set of all coordinates
  held in the priority structure at the end of the pass (for A*, the stale entries
  included); \<open>visited_order\<close> lists the nodes popped in these passes, followed by the goal
  when a path is returned. So the log has one snapshot for each visited node except the goal
  popped last.
\<close>

theorem frontier_log_snapshots:
  fixes h :: "coord \<Rightarrow> coord \<Rightarrow> 'p::linordered_idom" and h' :: "coord \<Rightarrow> coord \<Rightarrow> 'q::linorder"
  shows "(astar grid start goal rows cols h = Some (Inr (p, vis, fr)) \<longrightarrow>
       fr = map (\<lambda>s. heap_nodes (open_list s)) (astar_passes grid start goal rows cols h)
       \<and> vis = map (\<lambda>s. last (visited_order s)) (astar_passes grid start goal rows cols h)
               @ goal_pop p goal
       \<and> length vis = length fr + (if p = None then 0 else 1))
   \<and> (greedy_bfs grid start goal rows cols h' = Some (Inr (p', vis', fr')) \<longrightarrow>
       fr' = map (\<lambda>s. snd ` set (open_list s)) (greedy_passes grid start goal rows cols h')
       \<and> vis' = map (\<lambda>s. last (visited_order s)) (greedy_passes grid start goal rows cols h')
               @ goal_pop p' goal
       \<and> length vis' = length fr' + (if p' = None then 0 else 1))"
proof (intro conjI impI)
  assume "astar grid start goal rows cols h = Some (Inr (p, vis, fr))"
  from astar_loop_log[OF this[unfolded astar_def Let_def]]
  have a: "fr = map (\<lambda>s. heap_nodes (open_list s)) (astar_passes grid start goal rows cols h)"
    and b: "vis = map (\<lambda>s. last (visited_order s)) (astar_passes grid start goal rows cols h)
               @ goal_pop p goal"
    by (simp_all add: astar_passes_def)
  from a show "fr = map (\<lambda>s. heap_nodes (open_list s)) (astar_passes grid start goal rows cols h)" .
  from b show "vis = map (\<lambda>s. last (visited_order s)) (astar_passes grid start goal rows cols h)
               @ goal_pop p goal" .
  have "length vis = length (astar_passes grid start goal rows cols h) + length (goal_pop p goal)"
    by (subst b) simp
  moreover have "length fr = length (astar_passes grid start goal rows cols h)"
    by (subst a) simp
  ultimately show "length vis = length fr + (if p = None then 0 else 1)"
    by (simp add: goal_pop_def split: option.splits)
next
  assume "greedy_bfs grid start goal rows cols h' = Some (Inr (p', vis', fr'))"
  from greedy_loop_log[OF this[unfolded greedy_bfs_def]]
  have a: "fr' = map (\<lambda>s. snd ` set (open_list s)) (greedy_passes grid start goal rows cols h')"
    and b: "vis' = map (\<lambda>s. last (visited_order s)) (greedy_passes grid start goal rows cols h')
               @ goal_pop p' goal"
    by (simp_all add: greedy_passes_def)
  from a show "fr' = map (\<lambda>s. snd ` set (open_list s)) (greedy_passes grid start goal rows cols h')" .
  from b show "vis' = map (\<lambda>s. last (visited_order s)) (greedy_passes grid start goal rows cols h')
               @ goal_pop p' goal" .
  have "length vis' = length (greedy_passes grid start goal rows cols h') + length (goal_pop p' goal)"
    by (subst b) simp
  moreover have "length fr' = length (greedy_passes grid start goal rows cols h')"
    by (subst a) simp
  ultimately show "length vis' = length fr' + (if p' = None then 0 else 1)"
    by (simp add: goal_pop_def split: option.splits)
qed

theorem frontier_log_snapshots_witness:
  "astar [[START, GOAL]] (0, 0) (0, 1) 1 2 manhattan_distance =
     Some (Inr (Some [(0, 0), (0, 1)], [(0, 0), (0, 1)], [{(0, 1)}]))
   \<and> [{(0, 1)}] = map (\<lambda>s. heap_nodes (open_list s))
        (astar_passes [[START, GOAL]] (0, 0) (0, 1) 1 2 manhattan_distance)
   \<and> [(0, 0), (0, 1)] = map (\<lambda>s. last (visited_order s))
        (astar_passes [[START, GOAL]] (0, 0) (0, 1) 1 2 manhattan_distance)
        @ goal_pop (Some [(0, 0), (0, 1)]) (0, 1)
   \<and> greedy_bfs [[START, GOAL]] (0, 0) (0, 1) 1 2 manhattan_distance =
     Some (Inr (Some [(0, 0), (0, 1)], [(0, 0), (0, 1)], [{(0, 1)}]))
   \<and> [{(0, 1)}] = map (\<lambda>s. snd ` set (open_list s))
        (greedy_passes [[START, GOAL]] (0, 0) (0, 1) 1 2 manhattan_distance)"
proof -
  note T = frontier_log_snapshots[where grid = "[[START, GOAL]]" and start = "(0, 0)"
      and goal = "(0, 1)" and rows = 1 and cols = 2
      and h = manhattan_distance and h' = manhattan_distance]
  note A = T[THEN conjunct1, rule_format, OF astar_1x2]
  note G = T[THEN conjunct2, rule_format, OF greedy_1x2]
  show ?thesis
    by (rule conjI[OF astar_1x2 conjI[OF A[THEN conjunct1] conjI[OF A[THEN conjunct2, THEN conjunct1]
          conjI[OF greedy_1x2 G[THEN conjunct1]]]]])
qed

subsection \<open>The selector\<close>

text \<open>
  C9 (\<open>run_algorithm\<close> dispatches on the name). \<open>run_algorithm\<close> is \<open>astar\<close> exactly for the
  name \<open>"A*"\<close> and is \<open>greedy_bfs\<close> for every other name: an unrecognised name gives the
  result of \<open>greedy_bfs\<close> and adds no error of its own.
\<close>

theorem run_algorithm_dispatch:
  "(algo_name = ''A*'' \<longrightarrow> run_algorithm algo_name grid start goal rows cols h
        = astar grid start goal rows cols h)
   \<and> (algo_name \<noteq> ''A*'' \<longrightarrow> run_algorithm algo_name grid start goal rows cols h
        = greedy_bfs grid start goal rows cols h)"
  by (simp add: run_algorithm_def)

theorem run_algorithm_dispatch_witness:
  "run_algorithm ''A*'' grid_3x3_cells (0, 0) (2, 2) 3 3 manhattan_distance
     = astar grid_3x3_cells (0, 0) (2, 2) 3 3 manhattan_distance
   \<and> run_algorithm ''Dijkstra'' grid_3x3_cells (0, 0) (2, 2) 3 3 manhattan_distance
     = greedy_bfs grid_3x3_cells (0, 0) (2, 2) 3 3 manhattan_distance
   \<and> run_algorithm ''Dijkstra'' grid_3x3_cells (0, 0) (2, 2) 3 3 manhattan_distance
     = Some (Inr (Some [(0, 0), (0, 1), (0, 2), (1, 2), (2, 2)],
        [(0, 0), (0, 1), (0, 2), (1, 2), (2, 2)],
        [{(1, 0), (0, 1)}, {(1, 0), (1, 1), (0, 2)},
         {(1, 0), (1, 1), (1, 2)}, {(1, 0), (1, 1), (2, 2)}]))"
proof -
  have n: "''Dijkstra'' \<noteq> ''A*''" by simp
  note A = run_algorithm_dispatch[THEN conjunct1, rule_format, OF refl]
  note G = run_algorithm_dispatch[THEN conjunct2, rule_format, OF n]
  show ?thesis by (rule conjI[OF A conjI[OF G trans[OF G greedy_3x3]]])
qed

subsection \<open>The visited order\<close>

text \<open>
  C10 (no coordinate is expanded twice). The \<open>visited_order\<close> returned by \<open>astar\<close> and the one
  returned by \<open>greedy_bfs\<close> hold pairwise distinct coordinates, for every grid, start, goal
  and heuristic.
\<close>

theorem visited_order_distinct:
  "(astar grid start goal rows cols h = Some (Inr (p, vis, fr)) \<longrightarrow> distinct vis)
   \<and> (greedy_bfs grid start goal rows cols h' = Some (Inr (p', vis', fr')) \<longrightarrow> distinct vis')"
proof (intro conjI impI)
  assume "astar grid start goal rows cols h = Some (Inr (p, vis, fr))"
  then show "distinct vis"
    unfolding astar_def Let_def by (rule astar_loop_distinct[rotated 2]) simp_all
next
  assume "greedy_bfs grid start goal rows cols h' = Some (Inr (p', vis', fr'))"
  then show "distinct vis'"
    unfolding greedy_bfs_def by (rule greedy_loop_distinct[rotated]) (simp add: greedy_inv_def heappush_def)
qed

theorem visited_order_distinct_witness:
  "astar grid_3x3_cells (0, 0) (2, 2) 3 3 manhattan_distance =
     Some (Inr (Some [(0, 0), (0, 1), (0, 2), (1, 2), (2, 2)],
        [(0, 0), (0, 1), (1, 0), (0, 2), (1, 1), (2, 0), (1, 2), (2, 1), (2, 2)],
        [{(1, 0), (0, 1)}, {(1, 0), (1, 1), (0, 2)},
         {(1, 1), (0, 2), (2, 0)}, {(1, 1), (2, 0), (1, 2)},
         {(2, 0), (1, 2), (2, 1)}, {(1, 2), (2, 1)}, {(2, 1), (2, 2)},
         {(2, 2)}]))
   \<and> distinct [(0, 0), (0, 1), (1, 0), (0, 2), (1, 1), (2, 0), (1, 2), (2, 1), (2::int, 2::int)]
   \<and> greedy_bfs grid_3x3_cells (0, 0) (2, 2) 3 3 manhattan_distance =
     Some (Inr (Some [(0, 0), (0, 1), (0, 2), (1, 2), (2, 2)],
        [(0, 0), (0, 1), (0, 2), (1, 2), (2, 2)],
        [{(1, 0), (0, 1)}, {(1, 0), (1, 1), (0, 2)},
         {(1, 0), (1, 1), (1, 2)}, {(1, 0), (1, 1), (2, 2)}]))
   \<and> distinct [(0, 0), (0, 1), (0, 2), (1, 2), (2::int, 2::int)]"
proof -
  note T = visited_order_distinct[where grid = grid_3x3_cells and start = "(0, 0)"
      and goal = "(2, 2)" and rows = 3 and cols = 3
      and h = manhattan_distance and h' = manhattan_distance]
  note A = T[THEN conjunct1, rule_format, OF astar_3x3]
  note G = T[THEN conjunct2, rule_format, OF greedy_3x3]
  show ?thesis by (rule conjI[OF astar_3x3 conjI[OF A conjI[OF greedy_3x3 G]]])
qed


end
